theory Spec2Isabelle
  imports Main
begin

section \<open>C arithmetic on x86-64 (LP64, gcc)\<close>

text \<open>
  The repository is built with gcc for x86-64 (see the file header of proc.c): \<open>int\<close> is 32
  bits wide, \<open>size_t\<close> and pointers are 64 bits wide. Integers are modelled as \<open>int\<close> with the
  conversions written out. Addresses are values of type \<open>int\<close> as well; the null pointer is 0.
\<close>

definition to_size_t :: "int \<Rightarrow> int" where
  \<comment> \<open>conversion of an \<open>int\<close> to \<open>size_t\<close> (value modulo \<open>2^64\<close>)\<close>
  "to_size_t x = x mod 2 ^ 64"

definition to_int :: "int \<Rightarrow> int" where
  \<comment> \<open>conversion to \<open>int\<close>: gcc reduces modulo \<open>2^32\<close> into the signed range\<close>
  "to_int x = (x + 2 ^ 31) mod 2 ^ 32 - 2 ^ 31"

abbreviation sizeof_mcb_t :: int where "sizeof_mcb_t \<equiv> 16"
abbreviation sizeof_freelist_links_t :: int where "sizeof_freelist_links_t \<equiv> 16"
abbreviation sizeof_int :: int where "sizeof_int \<equiv> 4"
abbreviation MIN_FREE_BLOCK :: int where "MIN_FREE_BLOCK \<equiv> sizeof_mcb_t + sizeof_freelist_links_t"
abbreviation MAGIC_USED :: int where "MAGIC_USED \<equiv> 0x4D454D55"
abbreviation MAGIC_FREE :: int where "MAGIC_FREE \<equiv> 0x4D454D46"

section \<open>The allocator (mem.c)\<close>

text \<open>
  The managed region is a typed object store: the memory control block found at an address, and
  the pair of free-list links found at an address. The source keeps the links of a block at
  \<open>mcbAddr(m)\<close>, the first bytes of its payload; the model keys them by that address. Which
  bytes two objects at different addresses share is memory layout and is not part of the model.
\<close>

record mcb_t =
  m_prev :: int
  m_magic :: int
  m_size :: int

record freelist_links_t =
  larger :: int
  smaller :: int

record mem_state =
  mcbs :: "int \<Rightarrow> mcb_t"
  links :: "int \<Rightarrow> freelist_links_t"
  mcb :: int
  endMem :: int
  freelist :: int

definition mcbNext :: "mem_state \<Rightarrow> int \<Rightarrow> int" where
  "mcbNext st m =
     (let next = m + sizeof_mcb_t + m_size (mcbs st m)
      in if next = endMem st then 0 else next)"

definition mcbAddr :: "int \<Rightarrow> int" where
  "mcbAddr m = m + sizeof_mcb_t"

text \<open>The search loop of \<open>insertFree\<close>: it returns the final values of \<open>l\<close> and \<open>s\<close>.\<close>

partial_function (option) insertFree_loop :: "mem_state \<Rightarrow> int \<Rightarrow> int \<Rightarrow> int \<Rightarrow> (int \<times> int) option"
  where
  "insertFree_loop st m l s =
     (if s \<noteq> 0 \<and> m_size (mcbs st m) < m_size (mcbs st s)
      then insertFree_loop st m s (smaller (links st (mcbAddr s)))
      else Some (l, s))"

text \<open>The rest of \<open>insertFree\<close>: \<open>m\<close> is linked between \<open>l\<close> and \<open>s\<close>.\<close>

definition insertFree_link :: "int \<Rightarrow> int \<Rightarrow> int \<Rightarrow> mem_state \<Rightarrow> mem_state" where
  "insertFree_link m l s st =
     (let st1 = st\<lparr>links := (links st)(mcbAddr m := (links st (mcbAddr m))\<lparr>larger := l\<rparr>)\<rparr>;
          st2 = (if l \<noteq> 0
                 then st1\<lparr>links := (links st1)(mcbAddr l := (links st1 (mcbAddr l))\<lparr>smaller := m\<rparr>)\<rparr>
                 else st1\<lparr>freelist := m\<rparr>);
          st3 = st2\<lparr>links := (links st2)(mcbAddr m := (links st2 (mcbAddr m))\<lparr>smaller := s\<rparr>)\<rparr>
      in if s \<noteq> 0
         then st3\<lparr>links := (links st3)(mcbAddr s := (links st3 (mcbAddr s))\<lparr>larger := m\<rparr>)\<rparr>
         else st3)"

definition insertFree :: "int \<Rightarrow> mem_state \<Rightarrow> mem_state option" where
  "insertFree m st =
     (case insertFree_loop st m 0 (freelist st) of
        None \<Rightarrow> None
      | Some (l, s) \<Rightarrow> Some (insertFree_link m l s st))"

definition removeFree :: "int \<Rightarrow> mem_state \<Rightarrow> mem_state" where
  "removeFree m st =
     (let mf = links st (mcbAddr m);
          st1 = (if smaller mf \<noteq> 0
                 then st\<lparr>links := (links st)(mcbAddr (smaller mf) :=
                          (links st (mcbAddr (smaller mf)))\<lparr>larger := larger mf\<rparr>)\<rparr>
                 else st);
          st2 = (if larger mf \<noteq> 0
                 then st1\<lparr>links := (links st1)(mcbAddr (larger mf) :=
                          (links st1 (mcbAddr (larger mf)))\<lparr>smaller := smaller mf\<rparr>)\<rparr>
                 else st1\<lparr>freelist := smaller mf\<rparr>)
      in st2\<lparr>links := (links st2)(mcbAddr m := \<lparr>larger = 0, smaller = 0\<rparr>)\<rparr>)"

definition memInit :: "int \<Rightarrow> int \<Rightarrow> mem_state \<Rightarrow> mem_state option" where
  "memInit addr size0 st =
     (let m = addr;
          st1 = st\<lparr>mcbs := (mcbs st)(m :=
                   \<lparr>m_prev = 0, m_magic = MAGIC_FREE,
                    m_size = to_int ((to_size_t size0 - sizeof_mcb_t) mod 2 ^ 64)\<rparr>)\<rparr>;
          st2 = st1\<lparr>mcb := m, endMem := addr + size0, freelist := 0\<rparr>
      in insertFree m st2)"

text \<open>
  The size adjustment at the head of \<open>memAlloc\<close>. Both the comparison with
  \<open>sizeof(freelist_links_t)\<close> and the rounding are carried out in \<open>size_t\<close>, because \<open>sizeof\<close>
  has that type; the result is stored back into the \<open>int\<close> variable.
\<close>

definition alloc_size :: "int \<Rightarrow> int" where
  "alloc_size size0 =
     (let size1 = (if to_size_t size0 < sizeof_freelist_links_t
                   then sizeof_freelist_links_t else size0);
          u = (to_size_t size1 + sizeof_int - 1) mod 2 ^ 64
      in to_int (u - u mod sizeof_int))"

text \<open>The branch of \<open>memAlloc\<close> that splits the block \<open>m\<close> (lines 483 to 494).\<close>

definition memAlloc_split :: "int \<Rightarrow> int \<Rightarrow> int \<Rightarrow> mem_state \<Rightarrow> mem_state option" where
  "memAlloc_split size1 balance m st =
     (let n = mcbAddr m + size1;
          st1 = st\<lparr>mcbs := (mcbs st)(n := (mcbs st n)\<lparr>m_prev := m\<rparr>)\<rparr>;
          next = mcbNext st1 m;
          st2 = (if next \<noteq> 0
                 then st1\<lparr>mcbs := (mcbs st1)(next := (mcbs st1 next)\<lparr>m_prev := n\<rparr>)\<rparr>
                 else st1);
          st3 = st2\<lparr>mcbs := (mcbs st2)(n := (mcbs st2 n)\<lparr>m_magic := MAGIC_FREE\<rparr>)\<rparr>;
          st4 = st3\<lparr>mcbs := (mcbs st3)(n := (mcbs st3 n)
                   \<lparr>m_size := to_int ((to_size_t balance - sizeof_mcb_t) mod 2 ^ 64)\<rparr>)\<rparr>;
          st5 = st4\<lparr>links := (links st4)(mcbAddr n := \<lparr>larger = 0, smaller = 0\<rparr>)\<rparr>
      in insertFree n st5)"

text \<open>The end of \<open>memAlloc\<close>: \<open>m\<close> leaves the free list and is marked as used (lines 500 to 508).\<close>

definition memAlloc_take :: "int \<Rightarrow> int \<Rightarrow> mem_state \<Rightarrow> mem_state" where
  "memAlloc_take size2 m st =
     (let st1 = removeFree m st;
          st2 = st1\<lparr>mcbs := (mcbs st1)(m := (mcbs st1 m)\<lparr>m_magic := MAGIC_USED\<rparr>)\<rparr>
      in st2\<lparr>mcbs := (mcbs st2)(m := (mcbs st2 m)\<lparr>m_size := size2\<rparr>)\<rparr>)"

text \<open>
  \<open>memAlloc\<close> returns the pointer and the new state. The subtraction \<open>m->size - size\<close> and the
  addition \<open>size + balance\<close> are \<open>int\<close> arithmetic; a result outside the range of \<open>int\<close> is
  reduced as the x86-64 instructions do.
\<close>

definition memAlloc :: "int \<Rightarrow> mem_state \<Rightarrow> (int \<times> mem_state) option" where
  "memAlloc size0 st =
     (let size1 = alloc_size size0;
          m = freelist st
      in if m = 0 \<or> m_size (mcbs st m) < size1 then Some (0, st)
         else
           let balance = to_int (m_size (mcbs st m) - size1) in
           if to_size_t balance > MIN_FREE_BLOCK
           then (case memAlloc_split size1 balance m st of
                   None \<Rightarrow> None
                 | Some st' \<Rightarrow> Some (mcbAddr m, memAlloc_take size1 m st'))
           else Some (mcbAddr m, memAlloc_take (to_int (size1 + balance)) m st))"

text \<open>
  The merge of \<open>memFree\<close> with the preceding block (lines 555 to 570); it returns the block
  that \<open>m\<close> denotes afterwards.
\<close>

definition memFree_prev :: "int \<Rightarrow> mem_state \<Rightarrow> (int \<times> mem_state) option" where
  "memFree_prev m st =
     (let p = m_prev (mcbs st m)
      in if p \<noteq> 0 \<and> m_magic (mcbs st p) = MAGIC_FREE
         then
           (let st1 = st\<lparr>mcbs := (mcbs st)(m := (mcbs st m)\<lparr>m_magic := 0\<rparr>)\<rparr>;
                p1 = m_prev (mcbs st1 m);
                st2 = st1\<lparr>mcbs := (mcbs st1)(p1 := (mcbs st1 p1)\<lparr>m_size :=
                         to_int ((to_size_t (m_size (mcbs st1 p1))
                                  + (to_size_t (m_size (mcbs st1 m)) + sizeof_mcb_t) mod 2 ^ 64)
                                 mod 2 ^ 64)\<rparr>)\<rparr>;
                next = mcbNext st2 m;
                st3 = (if next \<noteq> 0
                       then st2\<lparr>mcbs := (mcbs st2)(next :=
                                (mcbs st2 next)\<lparr>m_prev := m_prev (mcbs st2 m)\<rparr>)\<rparr>
                       else st2);
                m' = m_prev (mcbs st3 m)
            in case insertFree m' (removeFree m' st3) of
                 None \<Rightarrow> None
               | Some st4 \<Rightarrow> Some (m', st4))
         else
           (case insertFree m st of
              None \<Rightarrow> None
            | Some st4 \<Rightarrow> Some (m, st4)))"

text \<open>The merge of \<open>memFree\<close> with the succeeding block (lines 573 to 587).\<close>

definition memFree_next :: "int \<Rightarrow> mem_state \<Rightarrow> mem_state option" where
  "memFree_next m st =
     (let next = mcbNext st m
      in if next \<noteq> 0 \<and> m_magic (mcbs st next) = MAGIC_FREE
         then
           (let st1 = removeFree next st;
                st2 = st1\<lparr>mcbs := (mcbs st1)(next := (mcbs st1 next)\<lparr>m_magic := 0\<rparr>)\<rparr>;
                st3 = st2\<lparr>mcbs := (mcbs st2)(m := (mcbs st2 m)\<lparr>m_size :=
                         to_int ((to_size_t (m_size (mcbs st2 m))
                                  + (sizeof_mcb_t + to_size_t (m_size (mcbs st2 next))) mod 2 ^ 64)
                                 mod 2 ^ 64)\<rparr>)\<rparr>;
                nnext = mcbNext st3 next;
                st4 = (if nnext \<noteq> 0
                       then st3\<lparr>mcbs := (mcbs st3)(nnext := (mcbs st3 nnext)\<lparr>m_prev := m\<rparr>)\<rparr>
                       else st3)
            in insertFree m (removeFree m st4))
         else Some st)"

definition memFree :: "int \<Rightarrow> mem_state \<Rightarrow> mem_state option" where
  "memFree addr st =
     (if addr = 0 then Some st
      else
        let m = addr - sizeof_mcb_t in
        if m_magic (mcbs st m) \<noteq> MAGIC_USED then Some st
        else if m = 0 then Some st
        else
          let st1 = st\<lparr>mcbs := (mcbs st)(m := (mcbs st m)\<lparr>m_magic := MAGIC_FREE\<rparr>)\<rparr>;
              st2 = st1\<lparr>links := (links st1)(mcbAddr m := \<lparr>larger = 0, smaller = 0\<rparr>)\<rparr>
          in case memFree_prev m st2 of
               None \<Rightarrow> None
             | Some (m', st3) \<Rightarrow> memFree_next m' st3)"

section \<open>The process manager (proc.c)\<close>

abbreviation STACKSZ :: int where "STACKSZ \<equiv> 128 * 1024"
abbreviation MAGIC_PROC :: int where "MAGIC_PROC \<equiv> 0x50524F43"
abbreviation sizeof_pcb_t :: int where "sizeof_pcb_t \<equiv> 56"
abbreviation sizeof_pointer :: int where "sizeof_pointer \<equiv> 8"

datatype procState_t = READY | RUNNING | SLEEPING | WAITING

record pcb_t =
  p_next :: int
  p_magic :: int
  p_pid :: int
  p_state :: procState_t
  p_stackAddr :: int
  p_resumeAddr :: int
  p_stackPtr :: int
  p_framePtr :: int

text \<open>
  The state of the kernel: the allocator, the process control blocks by address, the words
  written into process stacks, the machine stack pointer, and the four globals of proc.c.
  The model follows the data that \<open>sched\<close> changes; which code runs after the stack pointer
  has been exchanged is not part of it.
\<close>

record kern_state =
  mem :: mem_state
  pcbs :: "int \<Rightarrow> pcb_t"
  stack_mem :: "int \<Rightarrow> int"
  rsp :: int
  procId :: int
  readyQ :: int
  readyQEnd :: int
  runningProc :: int

text \<open>A dereference of a null pointer is a value of the model, named after the pointer.\<close>

datatype fault = NullDeref_runningProc | NullDeref_readyQEnd | NullDeref_prevProc

definition sched :: "kern_state \<Rightarrow> fault + kern_state" where
  "sched k =
     (let proc = readyQ k in
      if proc = 0 then Inr k
      else
        let oldProc = runningProc k;
            k1 = k\<lparr>readyQ := p_next (pcbs k proc)\<rparr>;
            k2 = (if readyQ k1 = 0 then k1\<lparr>readyQEnd := 0\<rparr> else k1)
        in case (if readyQ k2 = 0
                 then Inr (k2\<lparr>readyQ := runningProc k2, readyQEnd := runningProc k2\<rparr>)
                 else if readyQEnd k2 = 0 then Inl NullDeref_readyQEnd
                 else Inr (k2\<lparr>pcbs := (pcbs k2)(readyQEnd k2 :=
                               (pcbs k2 (readyQEnd k2))\<lparr>p_next := runningProc k2\<rparr>),
                             readyQEnd := runningProc k2\<rparr>)) of
             Inl e \<Rightarrow> Inl e
           | Inr k3 \<Rightarrow>
               let newStackPtr = p_stackPtr (pcbs k3 proc);
                   k4 = k3\<lparr>runningProc := proc\<rparr>;
                   k5 = k4\<lparr>pcbs := (pcbs k4)(runningProc k4 :=
                           (pcbs k4 (runningProc k4))\<lparr>p_next := 0\<rparr>)\<rparr>;
                   oldStackPtr = rsp k5;
                   k6 = k5\<lparr>rsp := newStackPtr\<rparr>
               in Inr (if oldProc \<noteq> 0
                       then k6\<lparr>pcbs := (pcbs k6)(oldProc :=
                               (pcbs k6 oldProc)\<lparr>p_stackPtr := oldStackPtr\<rparr>)\<rparr>
                       else k6))"

definition procYield :: "kern_state \<Rightarrow> fault + kern_state" where
  "procYield k = sched k"

definition procInit :: "kern_state \<Rightarrow> kern_state option" where
  "procInit k =
     (let k1 = k\<lparr>readyQ := 0, readyQEnd := 0, runningProc := 0, procId := 0\<rparr>
      in case memAlloc sizeof_pcb_t (mem k1) of
           None \<Rightarrow> None
         | Some (proc, st) \<Rightarrow>
             let k2 = k1\<lparr>mem := st\<rparr> in
             if proc = 0 then Some k2
             else
               let stack = rsp k2;
                   k3 = k2\<lparr>pcbs := (pcbs k2)(proc := (pcbs k2 proc)
                            \<lparr>p_magic := MAGIC_PROC, p_pid := procId k2, p_state := READY,
                             p_stackAddr := 0, p_stackPtr := stack\<rparr>),
                          procId := to_int (procId k2 + 1)\<rparr>
               in Some (k3\<lparr>runningProc := proc\<rparr>))"

text \<open>
  The part of \<open>procCreate\<close> between the two allocations and the call of \<open>sched\<close>
  (lines 140 to 152): the fields of the new PCB are filled in, the start address is written to
  the top of the new stack, and the PCB is put at the head of the ready queue.
\<close>

definition procCreate_setup :: "int \<Rightarrow> int \<Rightarrow> int \<Rightarrow> kern_state \<Rightarrow> kern_state" where
  "procCreate_setup start proc stack k =
     (let sp = stack + STACKSZ - sizeof_pointer;
          k1 = k\<lparr>pcbs := (pcbs k)(proc := (pcbs k proc)
                   \<lparr>p_pid := procId k, p_state := READY,
                    p_stackAddr := stack, p_stackPtr := sp\<rparr>),
                 procId := to_int (procId k + 1)\<rparr>;
          k2 = k1\<lparr>stack_mem := (stack_mem k1)(p_stackPtr (pcbs k1 proc) := start)\<rparr>;
          k3 = k2\<lparr>pcbs := (pcbs k2)(proc := (pcbs k2 proc)
                   \<lparr>p_stackPtr := p_stackPtr (pcbs k2 proc) - sizeof_pointer\<rparr>)\<rparr>;
          k4 = k3\<lparr>pcbs := (pcbs k3)(proc := (pcbs k3 proc)\<lparr>p_next := readyQ k3\<rparr>)\<rparr>;
          k5 = k4\<lparr>readyQ := proc\<rparr>
      in if p_next (pcbs k5 proc) = 0 then k5\<lparr>readyQEnd := proc\<rparr> else k5)"

text \<open>
  \<open>procCreate\<close> returns the value of its \<open>return\<close> statement and the state at that point,
  that is, after the call of \<open>sched\<close>.
\<close>

definition procCreate :: "int \<Rightarrow> kern_state \<Rightarrow> (fault + int \<times> kern_state) option" where
  "procCreate start k =
     (case memAlloc sizeof_pcb_t (mem k) of
        None \<Rightarrow> None
      | Some (proc, st) \<Rightarrow>
          let k1 = k\<lparr>mem := st\<rparr> in
          if proc = 0 then Some (Inr (- 1, k1))
          else
            (case memAlloc STACKSZ (mem k1) of
               None \<Rightarrow> None
             | Some (stack, st') \<Rightarrow>
                 let k2 = k1\<lparr>mem := st'\<rparr> in
                 if stack = 0
                 then (case memFree proc (mem k2) of
                         None \<Rightarrow> None
                       | Some st'' \<Rightarrow> Some (Inr (- 1, k2\<lparr>mem := st''\<rparr>)))
                 else
                   (case sched (procCreate_setup start proc stack k2) of
                      Inl e \<Rightarrow> Some (Inl e)
                    | Inr k3 \<Rightarrow> Some (Inr (p_pid (pcbs k3 proc), k3)))))"

text \<open>The search loop of \<open>procDelete\<close>: it returns the final values of \<open>prevProc\<close> and \<open>proc\<close>.\<close>

partial_function (option) procDelete_loop ::
  "(int \<Rightarrow> pcb_t) \<Rightarrow> int \<Rightarrow> int \<Rightarrow> int \<Rightarrow> (int \<times> int) option"
  where
  "procDelete_loop ps pid prevProc proc =
     (if proc \<noteq> 0
      then (if p_pid (ps proc) = pid then Some (prevProc, proc)
            else procDelete_loop ps pid proc (p_next (ps proc)))
      else Some (prevProc, proc))"

text \<open>
  The branch of \<open>procDelete\<close> for a PCB found in the ready queue (lines 189 to 202): it is
  unlinked, and its stack and the PCB itself are freed.
\<close>

definition procDelete_remove :: "int \<Rightarrow> int \<Rightarrow> kern_state \<Rightarrow> (fault + kern_state) option" where
  "procDelete_remove prevProc proc k =
     (case (if proc = readyQ k
            then
              (let k1 = k\<lparr>readyQ := p_next (pcbs k proc)\<rparr>
               in Inr (if readyQ k1 = 0 then k1\<lparr>readyQEnd := 0\<rparr> else k1))
            else if proc = readyQEnd k
            then
              (if prevProc = 0 then Inl NullDeref_prevProc
               else Inr (k\<lparr>readyQEnd := prevProc,
                      pcbs := (pcbs k)(prevProc := (pcbs k prevProc)\<lparr>p_next := 0\<rparr>)\<rparr>))
            else
              (if prevProc = 0 then Inl NullDeref_prevProc
               else Inr (k\<lparr>pcbs := (pcbs k)(prevProc :=
                      (pcbs k prevProc)\<lparr>p_next := p_next (pcbs k proc)\<rparr>)\<rparr>))) of
        Inl e \<Rightarrow> Some (Inl e)
      | Inr k2 \<Rightarrow>
          (case memFree (p_stackAddr (pcbs k2 proc)) (mem k2) of
             None \<Rightarrow> None
           | Some st \<Rightarrow>
               (case memFree proc st of
                  None \<Rightarrow> None
                | Some st' \<Rightarrow> Some (Inr (k2\<lparr>mem := st'\<rparr>)))))"

definition procDelete :: "int \<Rightarrow> kern_state \<Rightarrow> (fault + int \<times> kern_state) option" where
  "procDelete pid k =
     (case procDelete_loop (pcbs k) pid 0 (readyQ k) of
        None \<Rightarrow> None
      | Some (prevProc, proc) \<Rightarrow>
          (case (if proc \<noteq> 0 then procDelete_remove prevProc proc k
                 else if runningProc k = 0 then Some (Inl NullDeref_runningProc)
                 else if p_pid (pcbs k (runningProc k)) = pid then Some (Inr (k\<lparr>runningProc := 0\<rparr>))
                 else Some (Inr k)) of
             None \<Rightarrow> None
           | Some (Inl e) \<Rightarrow> Some (Inl e)
           | Some (Inr k3) \<Rightarrow>
               (case sched k3 of
                  Inl e \<Rightarrow> Some (Inl e)
                | Inr k4 \<Rightarrow> Some (Inr (0, k4)))))"

section \<open>Abstractions and fixtures\<close>

text \<open>
  The ready queue as a list: \<open>qlist P a q\<close> holds when following the \<open>next\<close> links from
  \<open>a\<close> visits exactly the PCBs \<open>q\<close> and then reaches the null pointer.
\<close>

fun qlist :: "(int \<Rightarrow> pcb_t) \<Rightarrow> int \<Rightarrow> int list \<Rightarrow> bool" where
  "qlist P a [] = (a = 0)"
| "qlist P a (x # xs) = (a = x \<and> x \<noteq> 0 \<and> qlist P (p_next (P x)) xs)"

text \<open>
  The ready queue is \<open>q\<close>, \<open>readyQEnd\<close> is its last PCB (or null when it is empty), and the
  running process, when there is one, is not queued and has no successor.
\<close>

definition queue_ok :: "kern_state \<Rightarrow> int list \<Rightarrow> bool" where
  "queue_ok k q =
     (qlist (pcbs k) (readyQ k) q \<and> distinct q \<and>
      readyQEnd k = (if q = [] then 0 else last q) \<and>
      runningProc k \<notin> set q \<and>
      (runningProc k \<noteq> 0 \<longrightarrow> p_next (pcbs k (runningProc k)) = 0))"

text \<open>
  The test drivers hand the allocator a global array, which C initialises with zeros, and the
  globals of mem.c and proc.c start as null pointers. \<open>boot\<close> is the state after the first two
  calls of \<open>main\<close> in proctest.c, \<open>memInit(space, sizeof(space))\<close> and \<open>procInit()\<close>, with the
  array at address 4096; \<open>boot_create\<close> and \<open>boot_create2\<close> are the states after one and two
  calls of \<open>procCreate\<close>, as \<open>main\<close> and \<open>process1\<close> make them.
\<close>

definition zero_mem :: mem_state where
  "zero_mem =
     \<lparr>mcbs = (\<lambda>_. \<lparr>m_prev = 0, m_magic = 0, m_size = 0\<rparr>),
      links = (\<lambda>_. \<lparr>larger = 0, smaller = 0\<rparr>),
      mcb = 0, endMem = 0, freelist = 0\<rparr>"

definition zero_kern :: kern_state where
  "zero_kern =
     \<lparr>mem = zero_mem,
      pcbs = (\<lambda>_. \<lparr>p_next = 0, p_magic = 0, p_pid = 0, p_state = READY, p_stackAddr = 0,
                     p_resumeAddr = 0, p_stackPtr = 0, p_framePtr = 0\<rparr>),
      stack_mem = (\<lambda>_. 0), rsp = 0x7FFF0000,
      procId = 0, readyQ = 0, readyQEnd = 0, runningProc = 0\<rparr>"

definition boot :: "kern_state option" where
  "boot = Option.bind (memInit 4096 (1024 * 1024) zero_mem) (\<lambda>st. procInit (zero_kern\<lparr>mem := st\<rparr>))"

definition boot_create :: "kern_state option" where
  "boot_create =
     Option.bind boot (\<lambda>k. case procCreate 111 k of Some (Inr (pid, k')) \<Rightarrow> Some k' | _ \<Rightarrow> None)"

definition boot_create2 :: "kern_state option" where
  "boot_create2 =
     Option.bind boot_create
       (\<lambda>k. case procCreate 222 k of Some (Inr (pid, k')) \<Rightarrow> Some k' | _ \<Rightarrow> None)"

text \<open>
  The blocks of the region as a list, in address order: \<open>chain h e p a bs\<close> holds when the
  blocks \<open>bs\<close> lie one behind the other from the address \<open>a\<close> up to \<open>e\<close>, the \<open>prev\<close> link of
  each is the block before it (\<open>p\<close> for the first), and each payload can hold the pair of
  free-list links.
\<close>

fun chain :: "(int \<Rightarrow> mcb_t) \<Rightarrow> int \<Rightarrow> int \<Rightarrow> int \<Rightarrow> int list \<Rightarrow> bool" where
  "chain h e p a [] = (a = e)"
| "chain h e p a (b # bs) =
     (a = b \<and> m_prev (h b) = p \<and> sizeof_freelist_links_t \<le> m_size (h b) \<and>
      chain h e b (b + sizeof_mcb_t + m_size (h b)) bs)"

text \<open>
  The free list as a list: \<open>dlist L p a fl e\<close> holds when following the \<open>smaller\<close> links from
  \<open>a\<close> visits the blocks \<open>fl\<close> and then reaches \<open>e\<close>, and the \<open>larger\<close> link of each is the
  block before it (\<open>p\<close> for the first).
\<close>

fun dlist :: "(int \<Rightarrow> freelist_links_t) \<Rightarrow> int \<Rightarrow> int \<Rightarrow> int list \<Rightarrow> int \<Rightarrow> bool" where
  "dlist L p a [] e = (a = e)"
| "dlist L p a (b # bs) e =
     (a = b \<and> b \<noteq> 0 \<and> larger (L (mcbAddr b)) = p \<and> dlist L b (smaller (L (mcbAddr b))) bs e)"

text \<open>
  The invariants of the allocator, for the block list \<open>bs\<close> and the free list \<open>fl\<close>. The
  blocks cover the region from \<open>mcb\<close> to \<open>endMem\<close>, which is shorter than \<open>2^31\<close> bytes, every
  block is \<open>USED\<close> or \<open>FREE\<close>, and no address outside the block list carries the \<open>USED\<close> magic
  (\<open>memFree\<close> trusts that magic). The free list holds exactly the \<open>FREE\<close> blocks, each once,
  in order of non-increasing payload size. No \<open>FREE\<close> block follows a \<open>FREE\<close> block.
\<close>

definition heap_ok :: "mem_state \<Rightarrow> int list \<Rightarrow> bool" where
  "heap_ok st bs =
     (0 < mcb st \<and> endMem st - mcb st < 2 ^ 31 \<and> bs \<noteq> [] \<and>
      chain (mcbs st) (endMem st) 0 (mcb st) bs \<and>
      (\<forall>b\<in>set bs. m_magic (mcbs st b) = MAGIC_USED \<or> m_magic (mcbs st b) = MAGIC_FREE) \<and>
      (\<forall>a. m_magic (mcbs st a) = MAGIC_USED \<longrightarrow> a \<in> set bs))"

definition free_ok :: "mem_state \<Rightarrow> int list \<Rightarrow> int list \<Rightarrow> bool" where
  "free_ok st bs fl =
     (dlist (links st) 0 (freelist st) fl 0 \<and> distinct fl \<and>
      set fl = {b \<in> set bs. m_magic (mcbs st b) = MAGIC_FREE} \<and>
      sorted_wrt (\<lambda>a b. m_size (mcbs st b) \<le> m_size (mcbs st a)) fl)"

definition coalesced :: "mem_state \<Rightarrow> int list \<Rightarrow> bool" where
  "coalesced st bs =
     (\<forall>b\<in>set bs. m_magic (mcbs st b) = MAGIC_FREE \<longrightarrow> m_prev (mcbs st b) \<noteq> 0 \<longrightarrow>
        m_magic (mcbs st (m_prev (mcbs st b))) \<noteq> MAGIC_FREE)"

definition alloc_rep :: "mem_state \<Rightarrow> int list \<Rightarrow> int list \<Rightarrow> bool" where
  "alloc_rep st bs fl = (heap_ok st bs \<and> free_ok st bs fl \<and> coalesced st bs)"

text \<open>
  Two states inside \<open>memFree\<close>. In \<open>mid_rep\<close> the block \<open>x\<close> has been marked \<open>FREE\<close> and is
  not yet in the free list, and only \<open>x\<close> may have a \<open>FREE\<close> neighbour. In \<open>pre_rep\<close> the
  block \<open>x\<close> is in the free list and has no \<open>FREE\<close> predecessor, and only its successor may
  be a \<open>FREE\<close> block behind a \<open>FREE\<close> block.
\<close>

definition mid_rep :: "mem_state \<Rightarrow> int list \<Rightarrow> int list \<Rightarrow> int \<Rightarrow> bool" where
  "mid_rep st bs fl x =
     (heap_ok st bs \<and> x \<in> set bs \<and> m_magic (mcbs st x) = MAGIC_FREE \<and>
      dlist (links st) 0 (freelist st) fl 0 \<and> distinct fl \<and>
      set fl = {b \<in> set bs. m_magic (mcbs st b) = MAGIC_FREE \<and> b \<noteq> x} \<and>
      sorted_wrt (\<lambda>a b. m_size (mcbs st b) \<le> m_size (mcbs st a)) fl \<and>
      (\<forall>b\<in>set bs. m_magic (mcbs st b) = MAGIC_FREE \<longrightarrow> m_prev (mcbs st b) \<noteq> 0 \<longrightarrow>
         m_magic (mcbs st (m_prev (mcbs st b))) = MAGIC_FREE \<longrightarrow> b = x \<or> m_prev (mcbs st b) = x))"

definition pre_rep :: "mem_state \<Rightarrow> int list \<Rightarrow> int list \<Rightarrow> int \<Rightarrow> bool" where
  "pre_rep st bs fl x =
     (heap_ok st bs \<and> free_ok st bs fl \<and> x \<in> set bs \<and> m_magic (mcbs st x) = MAGIC_FREE \<and>
      (m_prev (mcbs st x) = 0 \<or> m_magic (mcbs st (m_prev (mcbs st x))) \<noteq> MAGIC_FREE) \<and>
      (\<forall>b\<in>set bs. m_magic (mcbs st b) = MAGIC_FREE \<longrightarrow> m_prev (mcbs st b) \<noteq> 0 \<longrightarrow>
         m_magic (mcbs st (m_prev (mcbs st b))) = MAGIC_FREE \<longrightarrow> m_prev (mcbs st b) = x))"

text \<open>The head of a list of addresses, the null pointer for the empty list.\<close>

fun hd0 :: "int list \<Rightarrow> int" where
  "hd0 [] = 0"
| "hd0 (x # xs) = x"

text \<open>
  What \<open>insertFree\<close> does to the free list as a list: \<open>m\<close> goes behind the blocks that are
  strictly larger and in front of the first block that is not.
\<close>

definition ins :: "(int \<Rightarrow> int) \<Rightarrow> int \<Rightarrow> int list \<Rightarrow> int list" where
  "ins sz m fl = takeWhile (\<lambda>b. sz m < sz b) fl @ m # dropWhile (\<lambda>b. sz m < sz b) fl"

text \<open>
  The adjusted request in the words of the specification: the size is raised to the size of the
  pair of free-list links and then rounded up to a multiple of the size of \<open>int\<close>. What the
  code computes is \<open>alloc_size\<close>.
\<close>

definition adjusted_request :: "int \<Rightarrow> int" where
  "adjusted_request size0 =
     (let size1 = max size0 sizeof_freelist_links_t
      in ((size1 + sizeof_int - 1) div sizeof_int) * sizeof_int)"


section \<open>Properties of the process manager\<close>

lemmas eval_defs =
  memInit_def zero_mem_def zero_kern_def insertFree_def insertFree_loop.simps
  insertFree_link_def to_size_t_def to_int_def mcbAddr_def memAlloc_def alloc_size_def
  memAlloc_split_def memAlloc_take_def removeFree_def mcbNext_def Let_def memFree_def
  memFree_prev_def memFree_next_def sched_def procInit_def procCreate_def procCreate_setup_def
  procDelete_def procDelete_remove_def procDelete_loop.simps procYield_def

text \<open>The loops are evaluated by their defining equations.\<close>

declare insertFree_loop.simps [code]
declare procDelete_loop.simps [code]

lemma Some_caseE:
  "(case x of None \<Rightarrow> False | Some y \<Rightarrow> P y) \<Longrightarrow> (\<And>y. x = Some y \<Longrightarrow> P y \<Longrightarrow> R) \<Longrightarrow> R"
  by (cases x) auto

lemma Inr_caseE:
  "(case x of Inl a \<Rightarrow> False | Inr b \<Rightarrow> P b) \<Longrightarrow> (\<And>b. x = Inr b \<Longrightarrow> P b \<Longrightarrow> R) \<Longrightarrow> R"
  by (cases x) auto

subsection \<open>The ready queue as a list\<close>

lemma qlist_cong:
  "(\<And>x. x \<in> set q \<Longrightarrow> p_next (P' x) = p_next (P x)) \<Longrightarrow> qlist P' a q = qlist P a q"
  by (induction q arbitrary: a) auto

lemma qlist_nonzero: "qlist P a q \<Longrightarrow> 0 \<notin> set q"
  by (induction q arbitrary: a) auto

lemma qlist_last_next: "qlist P a q \<Longrightarrow> q \<noteq> [] \<Longrightarrow> p_next (P (last q)) = 0"
  by (induction q arbitrary: a) (auto split: if_splits)

lemma qlist_snoc:
  "qlist P a q \<Longrightarrow> q \<noteq> [] \<Longrightarrow> distinct q \<Longrightarrow> c \<notin> set q \<Longrightarrow> c \<noteq> 0 \<Longrightarrow>
   p_next (P' c) = 0 \<Longrightarrow> p_next (P' (last q)) = c \<Longrightarrow>
   (\<And>x. x \<in> set q \<Longrightarrow> x \<noteq> last q \<Longrightarrow> p_next (P' x) = p_next (P x)) \<Longrightarrow>
   qlist P' a (q @ [c])"
proof (induction q arbitrary: a)
  case Nil
  then show ?case by simp
next
  case (Cons x xs)
  show ?case
  proof (cases "xs = []")
    case True
    with Cons.prems show ?thesis by simp
  next
    case False
    with Cons.prems have "x \<noteq> last xs" by auto
    with Cons.prems False have nx: "p_next (P' x) = p_next (P x)" by simp
    have "qlist P' (p_next (P x)) (xs @ [c])"
      using Cons.prems False by (intro Cons.IH) auto
    with Cons.prems nx show ?thesis by simp
  qed
qed

subsection \<open>The scheduler\<close>

lemma sched_returns_head:
  "readyQ k \<noteq> 0 \<Longrightarrow> sched k = Inr k' \<Longrightarrow> runningProc k' = readyQ k"
  by (auto simp: sched_def Let_def split: if_splits)

lemma sched_switch_list:
  assumes ql: "qlist (pcbs k) (readyQ k) (x # q)" and d: "distinct (x # q)"
    and cn: "runningProc k \<notin> set (x # q)"
    and c0: "runningProc k \<noteq> 0 \<longrightarrow> p_next (pcbs k (runningProc k)) = 0"
    and e: "q \<noteq> [] \<longrightarrow> readyQEnd k = last q"
  shows "\<exists>k'. sched k = Inr k' \<and> runningProc k' = x \<and> p_next (pcbs k' x) = 0 \<and>
           (runningProc k \<noteq> 0 \<longrightarrow> queue_ok k' (q @ [runningProc k])) \<and>
           (runningProc k = 0 \<longrightarrow> qlist (pcbs k') (readyQ k') q) \<and>
           (\<forall>y. p_state (pcbs k' y) = p_state (pcbs k y)) \<and>
           (\<forall>y. p_pid (pcbs k' y) = p_pid (pcbs k y)) \<and>
           mem k' = mem k \<and> procId k' = procId k"
proof -
  let ?c = "runningProc k"
  from ql have hd: "readyQ k = x" "x \<noteq> 0" and tl: "qlist (pcbs k) (p_next (pcbs k x)) q"
    by auto
  show ?thesis
  proof (cases q)
    case Nil
    with tl have "p_next (pcbs k x) = 0" by simp
    with hd Nil cn c0 show ?thesis
      by (auto simp: sched_def Let_def queue_ok_def)
  next
    case (Cons y ys)
    with tl have y: "p_next (pcbs k x) = y" "y \<noteq> 0" by auto
    from tl have nz: "0 \<notin> set q" by (rule qlist_nonzero)
    have lq: "last q \<in> set q" using Cons by simp
    with nz have l0: "last q \<noteq> 0" by metis
    from e Cons have e': "readyQEnd k = last q" by simp
    from d lq have xl: "x \<noteq> last q" by auto
    from cn lq have cl: "?c \<noteq> last q" by auto
    from cn have cx: "?c \<noteq> x" by simp
    obtain k' where k': "sched k = Inr k'" 
      and r: "runningProc k' = x" "readyQ k' = y" "readyQEnd k' = ?c"
      and m: "mem k' = mem k" "procId k' = procId k"
      and nx: "p_next (pcbs k' x) = 0" "p_next (pcbs k' (last q)) = ?c"
              "\<And>z. z \<noteq> x \<Longrightarrow> z \<noteq> last q \<Longrightarrow> p_next (pcbs k' z) = p_next (pcbs k z)"
      and st: "\<And>z. p_state (pcbs k' z) = p_state (pcbs k z)"
      and pd: "\<And>z. p_pid (pcbs k' z) = p_pid (pcbs k z)"
      using hd y l0 e' xl cl cx by (auto simp: sched_def Let_def)
    have tl': "qlist (pcbs k) y q" using tl y by simp
    have A: "?c \<noteq> 0 \<Longrightarrow> queue_ok k' (q @ [?c])"
    proof -
      assume c: "?c \<noteq> 0"
      have "qlist (pcbs k') y (q @ [?c])"
      proof (rule qlist_snoc[OF tl'])
        show "q \<noteq> []" using Cons by simp
        show "distinct q" using d by simp
        show "?c \<notin> set q" using cn by simp
        show "?c \<noteq> 0" by fact
        show "p_next (pcbs k' ?c) = 0" using nx(3)[of ?c] cx cl c0 c by simp
        show "p_next (pcbs k' (last q)) = ?c" by fact
        fix z assume "z \<in> set q" "z \<noteq> last q"
        with d show "p_next (pcbs k' z) = p_next (pcbs k z)" by (intro nx(3)) auto
      qed
      with r d cn nx show ?thesis by (auto simp: queue_ok_def)
    qed
    have B: "?c = 0 \<Longrightarrow> qlist (pcbs k') (readyQ k') q"
    proof -
      assume c: "?c = 0"
      have "qlist (pcbs k') y q = qlist (pcbs k) y q"
      proof (rule qlist_cong)
        fix z assume z: "z \<in> set q"
        show "p_next (pcbs k' z) = p_next (pcbs k z)"
        proof (cases "z = last q")
          case True
          with nx(2) c qlist_last_next[OF tl'] Cons show ?thesis by simp
        next
          case False
          with z d show ?thesis by (intro nx(3)) auto
        qed
      qed
      with tl' r show ?thesis by simp
    qed
    from k' r m nx st pd A B show ?thesis by auto
  qed
qed

lemma sched_switch:
  assumes q: "queue_ok k (x # q)"
  shows "\<exists>k'. sched k = Inr k' \<and> runningProc k' = x \<and> p_next (pcbs k' x) = 0 \<and>
           (runningProc k \<noteq> 0 \<longrightarrow> queue_ok k' (q @ [runningProc k])) \<and>
           (runningProc k = 0 \<longrightarrow> qlist (pcbs k') (readyQ k') q) \<and>
           (\<forall>y. p_state (pcbs k' y) = p_state (pcbs k y)) \<and>
           (\<forall>y. p_pid (pcbs k' y) = p_pid (pcbs k y)) \<and>
           mem k' = mem k \<and> procId k' = procId k"
proof -
  from q have "qlist (pcbs k) (readyQ k) (x # q)" "distinct (x # q)"
    "runningProc k \<notin> set (x # q)"
    "runningProc k \<noteq> 0 \<longrightarrow> p_next (pcbs k (runningProc k)) = 0"
    "q \<noteq> [] \<longrightarrow> readyQEnd k = last q"
    by (auto simp: queue_ok_def)
  then show ?thesis by (rule sched_switch_list)
qed

subsection \<open>Process creation and deletion\<close>

lemma memAlloc_nonnull:
  "memAlloc n st = Some (p, st') \<Longrightarrow> p \<noteq> 0 \<Longrightarrow> freelist st \<noteq> 0 \<and> p = mcbAddr (freelist st)"
  by (auto simp: memAlloc_def Let_def split: if_splits option.splits)

lemma procDelete_loop_absent:
  "qlist P a q \<Longrightarrow> (\<And>x. x \<in> set q \<Longrightarrow> p_pid (P x) \<noteq> pid) \<Longrightarrow>
   procDelete_loop P pid prv a = Some (if q = [] then prv else last q, 0)"
proof (induction q arbitrary: a prv)
  case Nil
  then show ?case by (simp add: procDelete_loop.simps)
next
  case (Cons x xs)
  from Cons.prems have a: "a = x" "x \<noteq> 0" "p_pid (P x) \<noteq> pid"
    and t: "qlist P (p_next (P x)) xs" by auto
  have "procDelete_loop P pid x (p_next (P x)) = Some (if xs = [] then x else last xs, 0)"
    using t Cons.prems(2) by (intro Cons.IH) auto
  with a show ?case by (subst procDelete_loop.simps) simp
qed

lemma procCreate_setup_queue:
  assumes q: "queue_ok k q" and c: "runningProc k \<noteq> proc" and p: "proc \<notin> set q" "proc \<noteq> 0"
  shows "queue_ok (procCreate_setup start proc stack k) (proc # q) \<and>
         runningProc (procCreate_setup start proc stack k) = runningProc k \<and>
         p_pid (pcbs (procCreate_setup start proc stack k) proc) = procId k \<and>
         mem (procCreate_setup start proc stack k) = mem k \<and>
         (\<forall>y. y \<noteq> proc \<longrightarrow>
            p_pid (pcbs (procCreate_setup start proc stack k) y) = p_pid (pcbs k y) \<and>
            p_state (pcbs (procCreate_setup start proc stack k) y) = p_state (pcbs k y))"
proof -
  let ?k = "procCreate_setup start proc stack k"
  have f: "readyQ ?k = proc" "runningProc ?k = runningProc k" "mem ?k = mem k"
    "p_pid (pcbs ?k proc) = procId k" "p_next (pcbs ?k proc) = readyQ k"
    "readyQEnd ?k = (if readyQ k = 0 then proc else readyQEnd k)"
    "\<And>x. x \<noteq> proc \<Longrightarrow> p_next (pcbs ?k x) = p_next (pcbs k x)"
    "\<And>x. x \<noteq> proc \<Longrightarrow> p_pid (pcbs ?k x) = p_pid (pcbs k x)"
    "\<And>x. x \<noteq> proc \<Longrightarrow> p_state (pcbs ?k x) = p_state (pcbs k x)"
    by (simp_all add: procCreate_setup_def Let_def)
  from q have ql: "qlist (pcbs k) (readyQ k) q" and d: "distinct q"
    and e: "readyQEnd k = (if q = [] then 0 else last q)" and cn: "runningProc k \<notin> set q"
    and c0: "runningProc k \<noteq> 0 \<longrightarrow> p_next (pcbs k (runningProc k)) = 0"
    by (auto simp: queue_ok_def)
  have "qlist (pcbs ?k) (readyQ k) q = qlist (pcbs k) (readyQ k) q"
    by (intro qlist_cong) (metis p(1) f(7))
  with ql have ql': "qlist (pcbs ?k) (readyQ k) q" by simp
  have r0: "(readyQ k = 0) = (q = [])" using ql by (cases q) auto
  show ?thesis
    using f ql' r0 e d cn c c0 p by (auto simp: queue_ok_def)
qed

text \<open>
  \<open>procCreate\<close> on a well-formed ready queue. When both allocations succeed, the state
  handed to \<open>sched\<close> has the new PCB at the head of the ready queue, in front of the PCBs
  queued before, and the creating process is still running; the call of \<open>sched\<close> then makes
  the new PCB the running process and leaves the ready queue as the old queue followed by the
  creating process. The PCBs in use are live allocations, and the head of the free list is a
  free block, so the new PCB is none of them.
\<close>

lemma procCreate_runs_new_process:
  assumes "queue_ok k q" and "runningProc k \<noteq> 0"
    and "\<forall>x\<in>set (runningProc k # q). m_magic (mcbs (mem k) (x - sizeof_mcb_t)) = MAGIC_USED"
    and "m_magic (mcbs (mem k) (freelist (mem k))) = MAGIC_FREE"
    and "memAlloc sizeof_pcb_t (mem k) = Some (proc, st)" and "proc \<noteq> 0"
    and "memAlloc STACKSZ st = Some (stack, st')" and "stack \<noteq> 0"
  shows "\<exists>k1 k2. k1 = procCreate_setup start proc stack (k\<lparr>mem := st'\<rparr>) \<and>
           queue_ok k1 (proc # q) \<and> runningProc k1 = runningProc k \<and>
           sched k1 = Inr k2 \<and> procCreate start k = Some (Inr (procId k, k2)) \<and>
           runningProc k2 = proc \<and> queue_ok k2 (q @ [runningProc k]) \<and> mem k2 = st' \<and>
           p_pid (pcbs k2 proc) = procId k \<and>
           (\<forall>y. y \<noteq> proc \<longrightarrow> p_pid (pcbs k2 y) = p_pid (pcbs k y) \<and>
                           p_state (pcbs k2 y) = p_state (pcbs k y))"
proof -
  from memAlloc_nonnull[OF assms(5,6)] have pa: "proc = mcbAddr (freelist (mem k))" by simp
  with assms(4) have pm: "m_magic (mcbs (mem k) (proc - sizeof_mcb_t)) = MAGIC_FREE"
    by (simp add: mcbAddr_def)
  with assms(3) have fresh: "proc \<noteq> runningProc k" "proc \<notin> set q" by auto
  let ?k0 = "k\<lparr>mem := st'\<rparr>"
  let ?k1 = "procCreate_setup start proc stack ?k0"
  from assms(1) have q0: "queue_ok ?k0 q" by (simp add: queue_ok_def)
  from procCreate_setup_queue[OF q0, of proc start stack] fresh assms(6)
  have s: "queue_ok ?k1 (proc # q)" "runningProc ?k1 = runningProc k"
    "p_pid (pcbs ?k1 proc) = procId k" "mem ?k1 = st'"
    "\<forall>y. y \<noteq> proc \<longrightarrow> p_pid (pcbs ?k1 y) = p_pid (pcbs k y) \<and>
                     p_state (pcbs ?k1 y) = p_state (pcbs k y)"
    by auto
  from sched_switch[OF s(1)] s(2-5) assms(2) obtain k2 where k2: "sched ?k1 = Inr k2"
    "runningProc k2 = proc" "queue_ok k2 (q @ [runningProc k])" "p_pid (pcbs k2 proc) = procId k"
    "mem k2 = st'"
    "\<forall>y. y \<noteq> proc \<longrightarrow> p_pid (pcbs k2 y) = p_pid (pcbs k y) \<and>
                     p_state (pcbs k2 y) = p_state (pcbs k y)"
    by auto
  have "procCreate start k = Some (Inr (procId k, k2))"
    using assms(5-8) k2 by (simp add: procCreate_def)
  with s(1,2) k2 show ?thesis by simp
qed

text \<open>
  With a PCB queued and \<open>readyQEnd\<close> null, a \<open>procCreate\<close> whose allocations both
  succeed ends in the dereference of \<open>readyQEnd\<close> in \<open>sched\<close>.
\<close>

lemma procCreate_null_readyQEnd:
  assumes "memAlloc sizeof_pcb_t (mem k) = Some (proc, st)" and "proc \<noteq> 0"
    and "memAlloc STACKSZ st = Some (stack, st')" and "stack \<noteq> 0"
    and "readyQ k \<noteq> 0" and "readyQEnd k = 0"
  shows "readyQ (procCreate_setup start proc stack (k\<lparr>mem := st'\<rparr>)) = proc"
    and "procCreate start k = Some (Inl NullDeref_readyQEnd)"
proof -
  let ?k1 = "procCreate_setup start proc stack (k\<lparr>mem := st'\<rparr>)"
  have f: "readyQ ?k1 = proc" "p_next (pcbs ?k1 proc) = readyQ k" "readyQEnd ?k1 = 0"
    using assms(5,6) by (simp_all add: procCreate_setup_def Let_def)
  show "readyQ ?k1 = proc" by fact
  have "sched ?k1 = Inl NullDeref_readyQEnd"
    using f assms(2,5) by (simp add: sched_def Let_def)
  then show "procCreate start k = Some (Inl NullDeref_readyQEnd)"
    using assms(1-4) by (simp add: procCreate_def)
qed

text \<open>
  The running process deletes itself while two PCBs are queued: \<open>sched\<close> resumes the first
  of them and stores the null pointer in \<open>readyQEnd\<close>.
\<close>

lemma self_delete_two_queued:
  assumes r: "runningProc k = c" "c \<noteq> 0" "p_pid (pcbs k c) = pid"
    and q: "readyQ k = a" "a \<noteq> 0" "p_next (pcbs k a) = b" "b \<noteq> 0" "p_next (pcbs k b) = 0"
      "readyQEnd k = b" "a \<noteq> b"
    and n: "p_pid (pcbs k a) \<noteq> pid" "p_pid (pcbs k b) \<noteq> pid"
  shows "\<exists>k'. procDelete pid k = Some (Inr (0, k')) \<and> runningProc k' = a \<and> readyQ k' = b \<and>
           readyQEnd k' = 0 \<and> mem k' = mem k \<and> p_next (pcbs k' a) = 0 \<and>
           p_next (pcbs k' b) = 0"
proof -
  have "qlist (pcbs k) (readyQ k) [a, b]" using q by simp
  then have l: "procDelete_loop (pcbs k) pid 0 (readyQ k) = Some (if [a, b] = [] then 0 else last [a, b], 0)"
    using n by (intro procDelete_loop_absent) auto
  let ?k1 = "k\<lparr>runningProc := 0\<rparr>"
  have d: "procDelete pid k =
      (case sched ?k1 of Inl e \<Rightarrow> Some (Inl e) | Inr k4 \<Rightarrow> Some (Inr (0, k4)))"
    using l r by (simp add: procDelete_def)
  have "\<exists>k'. sched ?k1 = Inr k' \<and> runningProc k' = a \<and> readyQ k' = b \<and>
           readyQEnd k' = 0 \<and> mem k' = mem k \<and> p_next (pcbs k' a) = 0 \<and>
           p_next (pcbs k' b) = 0"
    using q by (simp add: sched_def Let_def)
  with d show ?thesis by auto
qed

subsection \<open>The states of the test scenario\<close>

lemma boot_facts:
  "\<exists>k. boot = Some k \<and> runningProc k = 4112 \<and> readyQ k = 0 \<and> readyQEnd k = 0 \<and>
        procId k = 1 \<and> p_pid (pcbs k 4112) = 0 \<and> p_next (pcbs k 4112) = 0 \<and>
        freelist (mem k) = 4168 \<and> m_magic (mcbs (mem k) 4168) = MAGIC_FREE \<and>
        m_magic (mcbs (mem k) 4096) = MAGIC_USED"
  unfolding boot_def by (simp add: eval_defs)

text \<open>
  The state after the first \<open>procCreate\<close>, and the allocations that the next two calls of
  \<open>procCreate\<close> make.
\<close>

lemma boot_create_allocs_code:
  "(case boot_create of None \<Rightarrow> False | Some k \<Rightarrow>
      runningProc k = 4184 \<and> readyQ k = 4112 \<and>
      readyQEnd k = 4112 \<and> procId k = 2 \<and> p_next (pcbs k 4112) = 0 \<and>
      p_next (pcbs k 4184) = 0 \<and> p_state (pcbs k 4112) = READY \<and>
      p_pid (pcbs k 4112) = 0 \<and> p_pid (pcbs k 4184) = 1 \<and>
      m_magic (mcbs (mem k) (freelist (mem k))) = MAGIC_FREE \<and>
      m_magic (mcbs (mem k) 4096) = MAGIC_USED \<and> m_magic (mcbs (mem k) 4168) = MAGIC_USED \<and>
      (case memAlloc sizeof_pcb_t (mem k) of None \<Rightarrow> False | Some (proc, st) \<Rightarrow>
         proc = 135344 \<and>
         (case memAlloc STACKSZ st of None \<Rightarrow> False | Some (stack, st') \<Rightarrow>
            stack = 135416 \<and>
            (case memAlloc sizeof_pcb_t st' of None \<Rightarrow> False | Some (proc3, st3) \<Rightarrow>
               proc3 \<noteq> 0 \<and>
               (case memAlloc STACKSZ st3 of None \<Rightarrow> False | Some (stack3, st4) \<Rightarrow>
                  stack3 \<noteq> 0)))))"
  by code_simp

lemma boot_create_allocs:
  "\<exists>k st st' proc3 st3 stack3 st4.
        boot_create = Some k \<and> runningProc k = 4184 \<and> readyQ k = 4112 \<and>
        readyQEnd k = 4112 \<and> procId k = 2 \<and> p_next (pcbs k 4112) = 0 \<and>
        p_next (pcbs k 4184) = 0 \<and> p_state (pcbs k 4112) = READY \<and>
        p_pid (pcbs k 4112) = 0 \<and> p_pid (pcbs k 4184) = 1 \<and>
        m_magic (mcbs (mem k) (freelist (mem k))) = MAGIC_FREE \<and>
        m_magic (mcbs (mem k) 4096) = MAGIC_USED \<and> m_magic (mcbs (mem k) 4168) = MAGIC_USED \<and>
        memAlloc sizeof_pcb_t (mem k) = Some (135344, st) \<and>
        memAlloc STACKSZ st = Some (135416, st') \<and>
        memAlloc sizeof_pcb_t st' = Some (proc3, st3) \<and> proc3 \<noteq> 0 \<and>
        memAlloc STACKSZ st3 = Some (stack3, st4) \<and> stack3 \<noteq> 0"
  using boot_create_allocs_code by (auto elim!: Some_caseE Inr_caseE)

lemma boot_create_facts:
  "\<exists>k. boot_create = Some k \<and> runningProc k = 4184 \<and> readyQ k = 4112 \<and>
        readyQEnd k = 4112 \<and> p_next (pcbs k 4112) = 0 \<and> p_next (pcbs k 4184) = 0 \<and>
        p_state (pcbs k 4112) = READY \<and> p_pid (pcbs k 4112) = 0 \<and> p_pid (pcbs k 4184) = 1"
  using boot_create_allocs by blast

text \<open>The second \<open>procCreate\<close>, made by the process that the first one created.\<close>

lemma boot_create2_step:
  "\<exists>k k2 proc3 st3 stack3 st4.
        boot_create = Some k \<and> queue_ok k [4112] \<and> runningProc k = 4184 \<and>
        procCreate 222 k = Some (Inr (2, k2)) \<and> boot_create2 = Some k2 \<and>
        runningProc k2 = 135344 \<and> queue_ok k2 [4112, 4184] \<and>
        p_state (pcbs k2 4112) = READY \<and>
        p_pid (pcbs k2 4112) = 0 \<and> p_pid (pcbs k2 4184) = 1 \<and> p_pid (pcbs k2 135344) = 2 \<and>
        memAlloc sizeof_pcb_t (mem k2) = Some (proc3, st3) \<and> proc3 \<noteq> 0 \<and>
        memAlloc STACKSZ st3 = Some (stack3, st4) \<and> stack3 \<noteq> 0"
proof -
  from boot_create_allocs obtain k st st' proc3 st3 stack3 st4 where
    k: "boot_create = Some k" "runningProc k = 4184" "readyQ k = 4112"
    "readyQEnd k = 4112" "procId k = 2" "p_next (pcbs k 4112) = 0" "p_next (pcbs k 4184) = 0"
    "p_state (pcbs k 4112) = READY" "p_pid (pcbs k 4112) = 0" "p_pid (pcbs k 4184) = 1"
    "m_magic (mcbs (mem k) (freelist (mem k))) = MAGIC_FREE"
    "m_magic (mcbs (mem k) 4096) = MAGIC_USED" "m_magic (mcbs (mem k) 4168) = MAGIC_USED"
    and a: "memAlloc sizeof_pcb_t (mem k) = Some (135344, st)"
    "memAlloc STACKSZ st = Some (135416, st')"
    and a3: "memAlloc sizeof_pcb_t st' = Some (proc3, st3)" "proc3 \<noteq> 0"
    "memAlloc STACKSZ st3 = Some (stack3, st4)" "stack3 \<noteq> 0"
    by blast
  have q: "queue_ok k [4112]" using k by (simp add: queue_ok_def)
  have r: "runningProc k \<noteq> 0" using k by simp
  have u: "\<forall>x\<in>set (runningProc k # [4112]). m_magic (mcbs (mem k) (x - sizeof_mcb_t)) = MAGIC_USED"
    using k by simp
  from procCreate_runs_new_process[OF q r u k(11) a(1) _ a(2), of 222] k
  obtain k2 where k2: "procCreate 222 k = Some (Inr (2, k2))" "runningProc k2 = 135344"
    "queue_ok k2 [4112, 4184]" "mem k2 = st'" "p_pid (pcbs k2 135344) = 2"
    "p_pid (pcbs k2 4112) = 0" "p_pid (pcbs k2 4184) = 1" "p_state (pcbs k2 4112) = READY"
    by auto
  have b: "boot_create2 = Some k2" by (simp add: boot_create2_def k(1) k2(1))
  from k(1,2) q k2 b a3 show ?thesis by blast
qed

lemma boot_create2_facts:
  "\<exists>k. boot_create2 = Some k \<and> runningProc k = 135344 \<and> readyQ k = 4112 \<and>
        readyQEnd k = 4184 \<and> p_next (pcbs k 4112) = 4184 \<and> p_next (pcbs k 4184) = 0 \<and>
        p_next (pcbs k 135344) = 0 \<and> p_state (pcbs k 4112) = READY \<and>
        p_pid (pcbs k 4112) = 0 \<and> p_pid (pcbs k 4184) = 1 \<and> p_pid (pcbs k 135344) = 2"
proof -
  from boot_create2_step obtain k where k: "boot_create2 = Some k" "runningProc k = 135344"
    "queue_ok k [4112, 4184]" "p_state (pcbs k 4112) = READY"
    "p_pid (pcbs k 4112) = 0" "p_pid (pcbs k 4184) = 1" "p_pid (pcbs k 135344) = 2"
    by blast
  from k(2,3) have "readyQ k = 4112" "readyQEnd k = 4184" "p_next (pcbs k 4112) = 4184"
    "p_next (pcbs k 4184) = 0" "p_next (pcbs k 135344) = 0"
    by (simp_all add: queue_ok_def)
  with k show ?thesis by blast
qed

text \<open>The self-delete of the process with PID 2, which is running then.\<close>

lemma self_delete_facts:
  "\<exists>k k' proc3 st3 stack3 st4.
        boot_create2 = Some k \<and> p_pid (pcbs k (runningProc k)) = 2 \<and>
        procDelete 2 k = Some (Inr (0, k')) \<and>
        runningProc k' = 4112 \<and> readyQ k' = 4184 \<and> readyQEnd k' = 0 \<and>
        p_next (pcbs k' 4184) = 0 \<and> p_next (pcbs k' 4112) = 0 \<and>
        memAlloc sizeof_pcb_t (mem k') = Some (proc3, st3) \<and> proc3 \<noteq> 0 \<and>
        memAlloc STACKSZ st3 = Some (stack3, st4) \<and> stack3 \<noteq> 0"
proof -
  from boot_create2_step obtain k proc3 st3 stack3 st4 where k: "boot_create2 = Some k"
    "runningProc k = 135344" "queue_ok k [4112, 4184]"
    "p_pid (pcbs k 4112) = 0" "p_pid (pcbs k 4184) = 1" "p_pid (pcbs k 135344) = 2"
    and a3: "memAlloc sizeof_pcb_t (mem k) = Some (proc3, st3)" "proc3 \<noteq> 0"
    "memAlloc STACKSZ st3 = Some (stack3, st4)" "stack3 \<noteq> 0"
    by blast
  from k(3) have q: "readyQ k = 4112" "readyQEnd k = 4184" "p_next (pcbs k 4112) = 4184"
    "p_next (pcbs k 4184) = 0"
    by (simp_all add: queue_ok_def)
  from self_delete_two_queued[of k 135344 2 4112 4184] k q
  obtain k' where k': "procDelete 2 k = Some (Inr (0, k'))" "runningProc k' = 4112"
    "readyQ k' = 4184" "readyQEnd k' = 0" "mem k' = mem k" "p_next (pcbs k' 4112) = 0"
    "p_next (pcbs k' 4184) = 0"
    by auto
  have "p_pid (pcbs k (runningProc k)) = 2" using k by simp
  with k(1) k' a3 show ?thesis by (intro exI[of _ k] exI[of _ k']) auto
qed

text \<open>
  C7, as the code has it. The ready queue is taken to be well formed: following the \<open>next\<close>
  links from \<open>readyQ\<close> visits the distinct PCBs \<open>x # q\<close> and then reaches the null
  pointer, the running process is not among them and has a null \<open>next\<close> link, and
  \<open>readyQEnd\<close> points to the last PCB when more than one PCB is queued. When \<open>sched\<close>
  then switches, the head \<open>x\<close> of the ready queue becomes \<open>runningProc\<close> and its
  \<open>next\<close> link is cleared; a previously running PCB is appended at the tail, and without
  one the rest of the queue is left as it was. \<open>sched\<close> writes no \<open>state\<close> field: every
  PCB keeps the state it had.
\<close>

theorem sched_switch_queue:
  assumes "qlist (pcbs k) (readyQ k) (x # q)" and "distinct (x # q)"
    and "runningProc k \<notin> set (x # q)"
    and "runningProc k \<noteq> 0 \<longrightarrow> p_next (pcbs k (runningProc k)) = 0"
    and "q \<noteq> [] \<longrightarrow> readyQEnd k = last q"
  shows "\<exists>k'. sched k = Inr k' \<and> runningProc k' = x \<and> p_next (pcbs k' x) = 0 \<and>
           (runningProc k \<noteq> 0 \<longrightarrow> queue_ok k' (q @ [runningProc k])) \<and>
           (runningProc k = 0 \<longrightarrow> qlist (pcbs k') (readyQ k') q) \<and>
           (\<forall>y. p_state (pcbs k' y) = p_state (pcbs k y))"
  using sched_switch_list[OF assms] by blast

text \<open>
  Two instances. In the state after the second \<open>procCreate\<close> of proctest.c two PCBs are
  queued, and the running PCB is appended behind the second of them. In the state after the
  self-delete that follows (see C6), one PCB is queued and \<open>readyQEnd\<close> is null; the
  switch is made all the same.
\<close>

theorem sched_switch_queue_witness:
  "\<exists>k k' k1 k2 k2'. boot_create2 = Some k \<and> readyQ k = 4112 \<and> readyQEnd k = 4184 \<and>
       runningProc k = 135344 \<and> sched k = Inr k' \<and> runningProc k' = 4112 \<and>
       p_next (pcbs k' 4112) = 0 \<and> queue_ok k' [4184, 135344] \<and>
       p_state (pcbs k' 4112) = READY \<and>
       boot_create2 = Some k1 \<and> procDelete 2 k1 = Some (Inr (0, k2)) \<and> readyQEnd k2 = 0 \<and>
       sched k2 = Inr k2' \<and> runningProc k2' = 4184 \<and> queue_ok k2' [4112]"
proof -
  from boot_create2_facts obtain k where k: "boot_create2 = Some k" "runningProc k = 135344"
    "readyQ k = 4112" "readyQEnd k = 4184" "p_next (pcbs k 4112) = 4184"
    "p_next (pcbs k 4184) = 0" "p_next (pcbs k 135344) = 0" "p_state (pcbs k 4112) = READY"
    by blast
  have a: "qlist (pcbs k) (readyQ k) (4112 # [4184])" "distinct (4112 # [4184 :: int])"
    "runningProc k \<notin> set (4112 # [4184])"
    "runningProc k \<noteq> 0 \<longrightarrow> p_next (pcbs k (runningProc k)) = 0"
    "[4184 :: int] \<noteq> [] \<longrightarrow> readyQEnd k = last [4184]"
    using k by simp_all
  from sched_switch_queue[OF a] k obtain k' where k': "sched k = Inr k'"
    "runningProc k' = 4112" "p_next (pcbs k' 4112) = 0" "queue_ok k' [4184, 135344]"
    "p_state (pcbs k' 4112) = READY"
    by auto
  from self_delete_facts obtain k1 k2 where k2: "boot_create2 = Some k1"
    "procDelete 2 k1 = Some (Inr (0, k2))" "runningProc k2 = 4112" "readyQ k2 = 4184"
    "readyQEnd k2 = 0" "p_next (pcbs k2 4184) = 0" "p_next (pcbs k2 4112) = 0"
    by blast
  have b: "qlist (pcbs k2) (readyQ k2) (4184 # [])" "distinct (4184 # ([] :: int list))"
    "runningProc k2 \<notin> set (4184 # [])"
    "runningProc k2 \<noteq> 0 \<longrightarrow> p_next (pcbs k2 (runningProc k2)) = 0"
    "([] :: int list) \<noteq> [] \<longrightarrow> readyQEnd k2 = last []"
    using k2 by simp_all
  from sched_switch_queue[OF b] k2 obtain k2' where k2': "sched k2 = Inr k2'"
    "runningProc k2' = 4184" "queue_ok k2' [4112]"
    by auto
  from k k' k2 k2' show ?thesis by blast
qed

text \<open>
  C7 as stated fails: in the state after the first \<open>procCreate\<close> of proctest.c the scheduler
  selects the PCB at the head of the ready queue, whose state is \<open>READY\<close>, and that PCB is
  still \<open>READY\<close>, not \<open>RUNNING\<close>, when it has become \<open>runningProc\<close>.
\<close>

theorem sched_selected_not_running:
  "\<exists>k k'. boot_create = Some k \<and> readyQ k \<noteq> 0 \<and> p_state (pcbs k (readyQ k)) = READY \<and>
          sched k = Inr k' \<and> runningProc k' = readyQ k \<and>
          p_state (pcbs k' (runningProc k')) \<noteq> RUNNING"
proof -
  from boot_create_facts obtain k where k: "boot_create = Some k" "runningProc k = 4184"
    "readyQ k = 4112" "readyQEnd k = 4112" "p_next (pcbs k 4112) = 0"
    "p_next (pcbs k 4184) = 0" "p_state (pcbs k 4112) = READY"
    by blast
  then have q: "queue_ok k (4112 # [])" by (simp add: queue_ok_def)
  from sched_switch[OF q] k show ?thesis by auto
qed

text \<open>
  C6 fails on the code. The calls \<open>procInit\<close>, \<open>procCreate\<close>, \<open>procCreate\<close> leave two PCBs in
  the ready queue; when the running process then deletes itself, \<open>sched\<close> runs with
  \<open>runningProc\<close> null and stores that null pointer in \<open>readyQEnd\<close>, although one PCB is
  still queued.
\<close>

theorem self_delete_loses_readyQEnd:
  "\<exists>k k'. boot_create2 = Some k \<and> p_pid (pcbs k (runningProc k)) = 2 \<and>
          procDelete 2 k = Some (Inr (0, k')) \<and> readyQ k' \<noteq> 0 \<and> readyQEnd k' = 0"
proof -
  from self_delete_facts obtain k k' where "boot_create2 = Some k"
    "p_pid (pcbs k (runningProc k)) = 2" "procDelete 2 k = Some (Inr (0, k'))"
    "readyQ k' = 4184" "readyQEnd k' = 0"
    by blast
  then show ?thesis by (intro exI[of _ k] exI[of _ k']) simp
qed



text \<open>
  C5 fails on the code in the state that the self-delete of C6 leaves behind: one PCB is
  queued, \<open>readyQEnd\<close> is null and the bootstrap process is running. Both allocations of a
  further \<open>procCreate\<close> succeed and the new PCB is put in front of the queued one, but
  \<open>sched\<close>, called with two PCBs queued, executes \<open>readyQEnd->next = runningProc\<close> on the
  null pointer instead of appending the creating process.
\<close>

theorem procCreate_after_self_delete_faults:
  "\<exists>k k' proc st stack st'. boot_create2 = Some k \<and> procDelete 2 k = Some (Inr (0, k')) \<and>
     runningProc k' = 4112 \<and> readyQ k' = 4184 \<and> readyQEnd k' = 0 \<and>
     memAlloc sizeof_pcb_t (mem k') = Some (proc, st) \<and> proc \<noteq> 0 \<and>
     memAlloc STACKSZ st = Some (stack, st') \<and> stack \<noteq> 0 \<and>
     readyQ (procCreate_setup 333 proc stack (k'\<lparr>mem := st'\<rparr>)) = proc \<and>
     procCreate 333 k' = Some (Inl NullDeref_readyQEnd)"
proof -
  from self_delete_facts obtain k k' proc st stack st' where k: "boot_create2 = Some k"
    "procDelete 2 k = Some (Inr (0, k'))" "runningProc k' = 4112" "readyQ k' = 4184"
    "readyQEnd k' = 0"
    and a: "memAlloc sizeof_pcb_t (mem k') = Some (proc, st)" "proc \<noteq> 0"
    "memAlloc STACKSZ st = Some (stack, st')" "stack \<noteq> 0"
    by blast
  have r: "readyQ k' \<noteq> 0" using k by simp
  from procCreate_null_readyQEnd[OF a r k(5), of 333] k a show ?thesis by blast
qed

lemma procDelete_absent:
  assumes a: "qlist (pcbs k) (readyQ k) q \<and> (\<forall>x\<in>set q. p_pid (pcbs k x) \<noteq> pid) \<and>
    runningProc k \<noteq> 0 \<and> p_pid (pcbs k (runningProc k)) \<noteq> pid"
  shows "procDelete pid k =
      (case sched k of Inl e \<Rightarrow> Some (Inl e) | Inr k' \<Rightarrow> Some (Inr (0, k')))"
proof -
  from a have "procDelete_loop (pcbs k) pid 0 (readyQ k) = Some (if q = [] then 0 else last q, 0)"
    by (intro procDelete_loop_absent) auto
  with a show ?thesis by (simp add: procDelete_def)
qed

text \<open>
  C4, as the code has it. \<open>memFree\<close> of the null pointer, \<open>memFree\<close> of a pointer whose
  header does not carry the \<open>USED\<close> magic, and \<open>procYield\<close> with an empty ready queue
  return the state they were given. \<open>procDelete\<close> of a PID that no queued PCB and not the
  running process has does what the scheduler does and nothing else: it returns the state it was
  given when the ready queue is empty, and when the ready queue is not empty and the scheduler
  returns, the PCB that was at the head of the ready queue is the running process.
\<close>

theorem silent_errors:
  "memFree 0 st = Some st \<and>
   (m_magic (mcbs st (addr - sizeof_mcb_t)) \<noteq> MAGIC_USED \<longrightarrow> memFree addr st = Some st) \<and>
   (readyQ k = 0 \<longrightarrow> procYield k = Inr k) \<and>
   (qlist (pcbs k) (readyQ k) q \<and> (\<forall>x\<in>set q. p_pid (pcbs k x) \<noteq> pid) \<and>
    runningProc k \<noteq> 0 \<and> p_pid (pcbs k (runningProc k)) \<noteq> pid \<longrightarrow>
      procDelete pid k = (case sched k of Inl e \<Rightarrow> Some (Inl e) | Inr k' \<Rightarrow> Some (Inr (0, k'))) \<and>
      (q = [] \<longrightarrow> procDelete pid k = Some (Inr (0, k))) \<and>
      (q \<noteq> [] \<longrightarrow> (\<forall>r k'. procDelete pid k = Some (Inr (r, k')) \<longrightarrow> runningProc k' = hd q)))"
proof (intro conjI impI allI)
  show "memFree 0 st = Some st" by (simp add: memFree_def)
  show "memFree addr st = Some st" if "m_magic (mcbs st (addr - sizeof_mcb_t)) \<noteq> MAGIC_USED"
    using that by (simp add: memFree_def Let_def)
  show "procYield k = Inr k" if "readyQ k = 0"
    using that by (simp add: procYield_def sched_def)
next
  assume a: "qlist (pcbs k) (readyQ k) q \<and> (\<forall>x\<in>set q. p_pid (pcbs k x) \<noteq> pid) \<and>
    runningProc k \<noteq> 0 \<and> p_pid (pcbs k (runningProc k)) \<noteq> pid"
  then show "procDelete pid k =
      (case sched k of Inl e \<Rightarrow> Some (Inl e) | Inr k' \<Rightarrow> Some (Inr (0, k')))"
    by (rule procDelete_absent)
next
  assume a: "qlist (pcbs k) (readyQ k) q \<and> (\<forall>x\<in>set q. p_pid (pcbs k x) \<noteq> pid) \<and>
    runningProc k \<noteq> 0 \<and> p_pid (pcbs k (runningProc k)) \<noteq> pid"
  assume "q = []"
  with a have "readyQ k = 0" by simp
  then have "sched k = Inr k" by (simp add: sched_def)
  with procDelete_absent[OF a] show "procDelete pid k = Some (Inr (0, k))" by simp
next
  fix r k'
  assume a: "qlist (pcbs k) (readyQ k) q \<and> (\<forall>x\<in>set q. p_pid (pcbs k x) \<noteq> pid) \<and>
    runningProc k \<noteq> 0 \<and> p_pid (pcbs k (runningProc k)) \<noteq> pid"
  assume ne: "q \<noteq> []" and p: "procDelete pid k = Some (Inr (r, k'))"
  from a ne have h: "readyQ k = hd q" "readyQ k \<noteq> 0" by (cases q; simp)+
  from p procDelete_absent[OF a] have "sched k = Inr k'" by (simp split: sum.splits)
  from sched_returns_head[OF h(2) this] h(1) show "runningProc k' = hd q" by simp
qed

theorem silent_errors_witness:
  "\<exists>k kb k'. boot = Some kb \<and> boot_create = Some k \<and>
     memFree 4112 zero_mem = Some zero_mem \<and> procYield kb = Inr kb \<and>
     procDelete 99 k = (case sched k of Inl e \<Rightarrow> Some (Inl e) | Inr k' \<Rightarrow> Some (Inr (0, k'))) \<and>
     procDelete 99 kb = Some (Inr (0, kb)) \<and>
     readyQ k = 4112 \<and> procDelete 99 k = Some (Inr (0, k')) \<and> runningProc k' = 4112"
proof -
  from boot_facts obtain kb where kb: "boot = Some kb" "runningProc kb = 4112" "readyQ kb = 0"
    "p_pid (pcbs kb 4112) = 0"
    by blast
  from boot_create_facts obtain k where k: "boot_create = Some k" "runningProc k = 4184"
    "readyQ k = 4112" "p_next (pcbs k 4112) = 0" "p_pid (pcbs k 4112) = 0"
    "p_pid (pcbs k 4184) = 1"
    by blast
  have m: "m_magic (mcbs zero_mem (4112 - sizeof_mcb_t)) \<noteq> MAGIC_USED"
    by (simp add: zero_mem_def)
  have q1: "qlist (pcbs k) (readyQ k) [4112] \<and> (\<forall>x\<in>set [4112]. p_pid (pcbs k x) \<noteq> 99) \<and>
    runningProc k \<noteq> 0 \<and> p_pid (pcbs k (runningProc k)) \<noteq> 99"
    using k by simp
  have q2: "qlist (pcbs kb) (readyQ kb) [] \<and> (\<forall>x\<in>set []. p_pid (pcbs kb x) \<noteq> 99) \<and>
    runningProc kb \<noteq> 0 \<and> p_pid (pcbs kb (runningProc kb)) \<noteq> 99"
    using kb by simp
  from silent_errors[of zero_mem 4112 kb "[]" 99] m kb q2
  have a: "memFree 4112 zero_mem = Some zero_mem" "procYield kb = Inr kb"
    "procDelete 99 kb = Some (Inr (0, kb))"
    by auto
  from silent_errors[of zero_mem 4112 k "[4112]" 99] q1
  have b: "procDelete 99 k = (case sched k of Inl e \<Rightarrow> Some (Inl e) | Inr k' \<Rightarrow> Some (Inr (0, k')))"
    and c: "\<forall>r k'. procDelete 99 k = Some (Inr (r, k')) \<longrightarrow> runningProc k' = hd [4112]"
    by blast+
  have "\<exists>k'. sched k = Inr k'" using k by (simp add: sched_def Let_def)
  then obtain k' where k': "sched k = Inr k'" by blast
  with b have d: "procDelete 99 k = Some (Inr (0, k'))" by simp
  with c have "runningProc k' = 4112" by simp
  with a b d kb k show ?thesis by blast
qed

text \<open>
  C4 as stated fails for \<open>procDelete\<close>: in the state after the first \<open>procCreate\<close> of
  proctest.c no PCB has the PID 99, and \<open>procDelete(99)\<close> still switches processes.
\<close>

theorem procDelete_unknown_pid_switches:
  "\<exists>k k'. boot_create = Some k \<and> qlist (pcbs k) (readyQ k) [4112] \<and>
          p_pid (pcbs k 4112) \<noteq> 99 \<and> runningProc k \<noteq> 0 \<and>
          p_pid (pcbs k (runningProc k)) \<noteq> 99 \<and>
          procDelete 99 k = Some (Inr (0, k')) \<and> runningProc k' \<noteq> runningProc k"
proof -
  from boot_create_facts obtain k where k: "boot_create = Some k" "runningProc k = 4184"
    "readyQ k = 4112" "readyQEnd k = 4112" "p_next (pcbs k 4112) = 0"
    "p_next (pcbs k 4184) = 0" "p_pid (pcbs k 4112) = 0" "p_pid (pcbs k 4184) = 1"
    by blast
  then have q: "queue_ok k (4112 # [])" by (simp add: queue_ok_def)
  from sched_switch[OF q] obtain k' where k': "sched k = Inr k'" "runningProc k' = 4112"
    by blast
  have "procDelete_loop (pcbs k) 99 0 (readyQ k) = Some (if [4112::int] = [] then 0 else last [4112], 0)"
    using k by (intro procDelete_loop_absent) auto
  with k k' have "procDelete 99 k = Some (Inr (0, k'))" by (simp add: procDelete_def)
  with k k' show ?thesis by auto
qed

text \<open>
  C8 fails on the code for a negative request. The test \<open>size < sizeof(freelist_links_t)\<close> is
  made in \<open>size_t\<close>, where a negative \<open>size\<close> is a number close to \<open>2^64\<close>, so the request is
  not raised: the adjusted size of the request \<open>-1\<close> is 0, that of \<open>-16\<close> is \<open>-16\<close>, and on
  a fresh region of 1024 bytes \<open>memAlloc(-16)\<close> returns a block whose recorded payload size
  is \<open>-16\<close>.
\<close>

theorem alloc_size_negative_not_raised:
  "alloc_size (- 1) = 0 \<and> alloc_size (- 16) = - 16 \<and>
   (\<exists>s p s'. memInit 4096 1024 zero_mem = Some s \<and> memAlloc (- 16) s = Some (p, s') \<and>
             p \<noteq> 0 \<and> m_size (mcbs s' (p - sizeof_mcb_t)) = - 16)"
  by (simp add: eval_defs)

section \<open>Properties of the allocator\<close>

subsection \<open>Conversions\<close>

lemma to_int_id: "- (2 ^ 31) \<le> x \<Longrightarrow> x < 2 ^ 31 \<Longrightarrow> to_int x = x"
  by (simp add: to_int_def)

lemma to_size_t_id: "0 \<le> x \<Longrightarrow> x < 2 ^ 64 \<Longrightarrow> to_size_t x = x"
  by (simp add: to_size_t_def)

lemma to_size_t_small: "0 \<le> x \<Longrightarrow> x < 2 ^ 31 \<Longrightarrow> to_size_t x = x"
  by (simp add: to_size_t_def)

lemma size_sub: "16 \<le> x \<Longrightarrow> x < 2 ^ 31 \<Longrightarrow> to_int ((to_size_t x - 16) mod 2 ^ 64) = x - 16"
  by (simp add: to_size_t_def to_int_def)

lemma size_add:
  "0 \<le> x \<Longrightarrow> 0 \<le> y \<Longrightarrow> x + y + 16 < 2 ^ 31 \<Longrightarrow>
   to_int ((to_size_t x + (to_size_t y + 16) mod 2 ^ 64) mod 2 ^ 64) = x + y + 16"
  by (simp add: to_size_t_def to_int_def)

lemma size_add':
  "0 \<le> x \<Longrightarrow> 0 \<le> y \<Longrightarrow> x + y + 16 < 2 ^ 31 \<Longrightarrow>
   to_int ((to_size_t x + (16 + to_size_t y) mod 2 ^ 64) mod 2 ^ 64) = x + y + 16"
  by (simp add: to_size_t_def to_int_def)

lemma alloc_size_valid:
  assumes "0 \<le> n" "n \<le> 2147483644"
  shows "alloc_size n = (if n < 16 then 16 else n + 3 - (n + 3) mod 4)"
  using assms by (simp add: alloc_size_def to_size_t_def to_int_def Let_def add.commute)

lemma alloc_size_bounds:
  assumes "0 \<le> n" "n \<le> 2147483644"
  shows "16 \<le> alloc_size n" "n \<le> alloc_size n" "alloc_size n < 2 ^ 31" "alloc_size n mod 4 = 0"
proof -
  show "16 \<le> alloc_size n" using assms by (simp add: alloc_size_valid) presburger
  show "n \<le> alloc_size n" using assms by (simp add: alloc_size_valid) presburger
  show "alloc_size n < 2 ^ 31" using assms by (simp add: alloc_size_valid) presburger
  show "alloc_size n mod 4 = 0" using assms by (simp add: alloc_size_valid)
qed

lemma mcbAddr_eq [simp]: "(mcbAddr a = mcbAddr b) = (a = b)"
  by (simp add: mcbAddr_def)

subsection \<open>The block chain\<close>

lemma chain_cong:
  "(\<And>b. b \<in> set bs \<Longrightarrow> m_prev (h' b) = m_prev (h b) \<and> m_size (h' b) = m_size (h b)) \<Longrightarrow>
   chain h' e p a bs = chain h e p a bs"
  by (induction bs arbitrary: p a) auto

lemma chain_append:
  "chain h e p a (xs @ ys) = (\<exists>a'. chain h a' p a xs \<and> chain h e (last (p # xs)) a' ys)"
  by (induction xs arbitrary: p a) auto

lemma chain_bounds: "chain h e p a bs \<Longrightarrow> b \<in> set bs \<Longrightarrow> a \<le> b \<and> b + 32 \<le> e"
proof (induction bs arbitrary: p a)
  case Nil
  then show ?case by simp
next
  case (Cons x xs)
  have le: "chain h e q c zs \<Longrightarrow> c \<le> e" for q c zs
  proof (induction zs arbitrary: q c)
    case Nil then show ?case by simp
  next
    case (Cons z zs)
    from Cons.prems Cons.IH[of z "z + 16 + m_size (h z)"] show ?case by auto
  qed
  from Cons.prems(1) have x: "a = x" "16 \<le> m_size (h x)"
    and t: "chain h e x (x + 16 + m_size (h x)) xs" by auto
  from le[OF t] x have "x + 32 \<le> e" by simp
  moreover have "b \<in> set xs \<Longrightarrow> x \<le> b \<and> b + 32 \<le> e"
    using Cons.IH[OF t] x by fastforce
  ultimately show ?case using Cons.prems(2) x by auto
qed

lemma chain_le: "chain h e p a bs \<Longrightarrow> a \<le> e"
  by (induction bs arbitrary: p a) fastforce+

lemma chain_gap:
  "chain h e p a bs \<Longrightarrow> b \<in> set bs \<Longrightarrow> c \<in> set bs \<Longrightarrow> b < c \<Longrightarrow>
   b + 16 + m_size (h b) \<le> c"
proof (induction bs arbitrary: p a)
  case Nil
  then show ?case by simp
next
  case (Cons x xs)
  from Cons.prems(1) have x: "a = x" "16 \<le> m_size (h x)"
    and t: "chain h e x (x + 16 + m_size (h x)) xs" by auto
  have ge: "\<And>y. y \<in> set xs \<Longrightarrow> x + 16 + m_size (h x) \<le> y"
    using chain_bounds[OF t] by blast
  show ?case
  proof (cases "b = x")
    case True
    with Cons.prems have "c \<in> set xs" by auto
    with ge True show ?thesis by simp
  next
    case False
    with Cons.prems have b: "b \<in> set xs" by simp
    with ge x Cons.prems have "c \<noteq> x" by fastforce
    with Cons.prems have "c \<in> set xs" by simp
    with Cons.IH[OF t b] Cons.prems show ?thesis by simp
  qed
qed

lemma chain_distinct: "chain h e p a bs \<Longrightarrow> distinct bs"
proof (induction bs arbitrary: p a)
  case Nil
  then show ?case by simp
next
  case (Cons x xs)
  from Cons.prems(1) have x: "a = x" "16 \<le> m_size (h x)"
    and t: "chain h e x (x + 16 + m_size (h x)) xs" by auto
  from chain_bounds[OF t] x have "x \<notin> set xs" by fastforce
  with Cons.IH[OF t] show ?case by simp
qed

lemma chain_hd_prev:
  "chain h e p a bs \<Longrightarrow>
   (\<And>b. b \<in> set bs \<Longrightarrow> m_size (h' b) = m_size (h b)) \<Longrightarrow>
   (\<And>b. b \<in> set (tl bs) \<Longrightarrow> m_prev (h' b) = m_prev (h b)) \<Longrightarrow>
   (bs \<noteq> [] \<Longrightarrow> m_prev (h' (hd bs)) = p') \<Longrightarrow>
   chain h' e p' a bs"
proof (cases bs)
  case Nil
  assume "chain h e p a bs" with Nil show ?thesis by simp
next
  case (Cons x xs)
  assume c: "chain h e p a bs"
    and s: "\<And>b. b \<in> set bs \<Longrightarrow> m_size (h' b) = m_size (h b)"
    and q: "\<And>b. b \<in> set (tl bs) \<Longrightarrow> m_prev (h' b) = m_prev (h b)"
    and r: "bs \<noteq> [] \<Longrightarrow> m_prev (h' (hd bs)) = p'"
  have "chain h' e x (x + 16 + m_size (h x)) xs = chain h e x (x + 16 + m_size (h x)) xs"
    using s q Cons by (intro chain_cong) auto
  with c s[of x] r Cons show ?thesis by auto
qed

text \<open>The fields of a block in the middle of the chain, and its neighbours.\<close>

lemma chain_mid:
  assumes "chain h e p a (pre @ m # post)"
  shows "m_prev (h m) = last (p # pre)" "16 \<le> m_size (h m)"
    "chain h e m (m + 16 + m_size (h m)) post"
    "post = [] \<Longrightarrow> m + 16 + m_size (h m) = e"
    "post \<noteq> [] \<Longrightarrow> hd post = m + 16 + m_size (h m) \<and> hd post \<noteq> e \<and> m_prev (h (hd post)) = m"
proof -
  from assms obtain a' where a: "chain h a' p a pre" "chain h e (last (p # pre)) a' (m # post)"
    unfolding chain_append by blast
  then show "m_prev (h m) = last (p # pre)" "16 \<le> m_size (h m)"
    and t: "chain h e m (m + 16 + m_size (h m)) post" by auto
  from t show "post = [] \<Longrightarrow> m + 16 + m_size (h m) = e" by simp
  show "post \<noteq> [] \<Longrightarrow> hd post = m + 16 + m_size (h m) \<and> hd post \<noteq> e \<and> m_prev (h (hd post)) = m"
  proof -
    assume "post \<noteq> []"
    then obtain c cs where p: "post = c # cs" by (cases post) auto
    with t have "c = m + 16 + m_size (h m)" "m_prev (h c) = m" by auto
    moreover from chain_bounds[OF t, of c] p have "c \<noteq> e" by simp
    ultimately show ?thesis using p by simp
  qed
qed

subsection \<open>The free list\<close>

lemma dlist_cong:
  "(\<And>b. b \<in> set fl \<Longrightarrow> L' (mcbAddr b) = L (mcbAddr b)) \<Longrightarrow> dlist L' p a fl e = dlist L p a fl e"
  by (induction fl arbitrary: p a) auto

lemma dlist_nonzero: "dlist L p a fl e \<Longrightarrow> 0 \<notin> set fl"
  by (induction fl arbitrary: p a) auto

lemma dlist_append:
  "dlist L p a (xs @ ys) e = (\<exists>a'. dlist L p a xs a' \<and> dlist L (last (p # xs)) a' ys e)"
  by (induction xs arbitrary: p a) auto

lemma dlist_hd0: "dlist L p a fl 0 \<Longrightarrow> a = hd0 fl"
  by (cases fl) auto

lemma dlist_hd_update:
  "dlist L p a fl e \<Longrightarrow>
   (\<And>b. b \<in> set (tl fl) \<Longrightarrow> L' (mcbAddr b) = L (mcbAddr b)) \<Longrightarrow>
   (fl \<noteq> [] \<Longrightarrow> L' (mcbAddr (hd fl)) = (L (mcbAddr (hd fl)))\<lparr>larger := p'\<rparr>) \<Longrightarrow>
   dlist L' p' a fl e"
proof (cases fl)
  case Nil
  assume "dlist L p a fl e" with Nil show ?thesis by simp
next
  case (Cons x xs)
  assume c: "dlist L p a fl e"
    and q: "\<And>b. b \<in> set (tl fl) \<Longrightarrow> L' (mcbAddr b) = L (mcbAddr b)"
    and r: "fl \<noteq> [] \<Longrightarrow> L' (mcbAddr (hd fl)) = (L (mcbAddr (hd fl)))\<lparr>larger := p'\<rparr>"
  have "dlist L' x (smaller (L (mcbAddr x))) xs e = dlist L x (smaller (L (mcbAddr x))) xs e"
    using q Cons by (intro dlist_cong) auto
  with c r Cons show ?thesis by auto
qed

lemma dlist_end_update:
  "dlist L p a fl e \<Longrightarrow> distinct fl \<Longrightarrow>
   (\<And>b. b \<in> set (butlast fl) \<Longrightarrow> L' (mcbAddr b) = L (mcbAddr b)) \<Longrightarrow>
   (fl \<noteq> [] \<Longrightarrow> L' (mcbAddr (last fl)) = (L (mcbAddr (last fl)))\<lparr>smaller := e'\<rparr>) \<Longrightarrow>
   dlist L' p (if fl = [] then e' else a) fl e'"
proof (induction fl arbitrary: p a)
  case Nil
  then show ?case by simp
next
  case (Cons x xs)
  show ?case
  proof (cases "xs = []")
    case True
    with Cons.prems show ?thesis by simp
  next
    case False
    from Cons.prems(1) have x: "a = x" "x \<noteq> 0" "larger (L (mcbAddr x)) = p"
      and t: "dlist L x (smaller (L (mcbAddr x))) xs e" by auto
    have "dlist L' x (if xs = [] then e' else smaller (L (mcbAddr x))) xs e'"
      using Cons.prems False by (intro Cons.IH[OF t]) auto
    moreover have "L' (mcbAddr x) = L (mcbAddr x)" using Cons.prems(3)[of x] False by simp
    ultimately show ?thesis using x False by simp
  qed
qed

lemma dlist_mid:
  assumes "dlist L p a (pre @ m # post) 0"
  shows "larger (L (mcbAddr m)) = last (p # pre)" "smaller (L (mcbAddr m)) = hd0 post" "m \<noteq> 0"
    "dlist L p a pre m" "dlist L m (hd0 post) post 0"
proof -
  from assms obtain a' where a: "dlist L p a pre a'" "dlist L (last (p # pre)) a' (m # post) 0"
    unfolding dlist_append by blast
  then have m: "a' = m" "m \<noteq> 0" "larger (L (mcbAddr m)) = last (p # pre)"
    and t: "dlist L m (smaller (L (mcbAddr m))) post 0" by auto
  from dlist_hd0[OF t] have s: "smaller (L (mcbAddr m)) = hd0 post" .
  from a m t s show "larger (L (mcbAddr m)) = last (p # pre)" "smaller (L (mcbAddr m)) = hd0 post"
    "m \<noteq> 0" "dlist L p a pre m" "dlist L m (hd0 post) post 0" by simp_all
qed

lemma round4: "(s::int) + 3 - (s + 3) mod 4 = (s + 3) div 4 * 4"
  by (simp add: minus_mod_eq_div_mult)

lemma alloc_size_adjusted:
  assumes "0 \<le> n" "n \<le> 2147483644"
  shows "alloc_size n = adjusted_request n"
  unfolding alloc_size_valid[OF assms] adjusted_request_def Let_def max_def
  by (simp add: round4 add.commute)

lemma to_size_t_neg: "- (2 ^ 64) \<le> x \<Longrightarrow> x < 0 \<Longrightarrow> to_size_t x = x + 2 ^ 64"
proof -
  assume a: "- (2 ^ 64) \<le> x" "x < 0"
  have "x mod 2 ^ 64 = (x + 2 ^ 64) mod 2 ^ 64" by simp
  also have "\<dots> = x + 2 ^ 64" using a by (intro mod_pos_pos_trivial) auto
  finally show ?thesis by (simp add: to_size_t_def)
qed

lemma to_int_wrap: "- (2 ^ 31) \<le> k \<Longrightarrow> k < 2 ^ 31 \<Longrightarrow> to_int (2 ^ 64 + k) = k"
proof -
  assume a: "- (2 ^ 31) \<le> k" "k < 2 ^ 31"
  have "(2 ^ 64 + k + 2 ^ 31) mod 2 ^ 32 = ((k + 2 ^ 31) + 2 ^ 32 * 2 ^ 32) mod (2 ^ 32 :: int)"
    by (simp add: algebra_simps)
  also have "\<dots> = (k + 2 ^ 31) mod 2 ^ 32" by (rule mod_mult_self2)
  also have "\<dots> = k + 2 ^ 31" using a by (intro mod_pos_pos_trivial) auto
  finally show ?thesis by (simp add: to_int_def)
qed

lemma alloc_size_negative:
  assumes "- (2 ^ 31) \<le> n" "n < 0"
  shows "alloc_size n \<le> 0"
proof -
  have a: "to_size_t n = n + 2 ^ 64" using assms by (intro to_size_t_neg) auto
  have b: "\<not> to_size_t n < 16" unfolding a using assms by simp
  define u where "u = (to_size_t n + 4 - 1) mod 2 ^ 64"
  have e: "to_size_t n + 4 - 1 = (n + 3) + 2 ^ 64" unfolding a by simp
  have as: "alloc_size n = to_int (u - u mod 4)"
    using b by (simp add: alloc_size_def Let_def u_def)
  show ?thesis
  proof (cases "- 3 \<le> n")
    case True
    have "u = ((n + 3) + 2 ^ 64) mod 2 ^ 64" unfolding u_def e ..
    also have "\<dots> = (n + 3) mod 2 ^ 64" by (rule mod_add_self2)
    also have "\<dots> = n + 3" using True assms by (intro mod_pos_pos_trivial) auto
    finally have "u = n + 3" .
    then have "0 \<le> u" "u < 3" using True assms by simp_all
    then have "u mod 4 = u" by simp
    then show ?thesis unfolding as by (simp add: to_int_def)
  next
    case False
    have "u = ((n + 3) + 2 ^ 64) mod 2 ^ 64" unfolding u_def e ..
    also have "\<dots> = (n + 3) + 2 ^ 64" using False assms by (intro mod_pos_pos_trivial) auto
    finally have u: "u = 2 ^ 64 + (n + 3)" by simp
    define k where "k = (n + 3) - (n + 3) mod 4"
    have "(2 ^ 64 + (n + 3)) mod 4 = ((n + 3) + 4 * 2 ^ 62) mod (4::int)" by (simp add: algebra_simps)
    also have "\<dots> = (n + 3) mod 4" by (rule mod_mult_self2)
    finally have "u mod 4 = (n + 3) mod 4" unfolding u .
    then have uk: "u - u mod 4 = 2 ^ 64 + k" unfolding u k_def by simp
    have k0: "k \<le> 0" using False unfolding k_def by simp
    have "(n + 3) mod 4 \<le> 3" by simp
    moreover have "(- (2 ^ 31) :: int) mod 4 = 0" by simp
    ultimately have k1: "- (2 ^ 31) \<le> k" using assms(1) unfolding k_def
      by (cases "n + 3 < - (2 ^ 31) + 4") (simp_all add: k_def)
    have "to_int (2 ^ 64 + k) = k" using k0 k1 by (intro to_int_wrap) auto
    then show ?thesis unfolding as uk using k0 by simp
  qed
qed

subsection \<open>Sorted insertion\<close>

lemma ins_split:
  obtains pre post where "fl = pre @ post" "ins sz m fl = pre @ m # post"
    "pre = takeWhile (\<lambda>b. sz m < sz b) fl" "post = dropWhile (\<lambda>b. sz m < sz b) fl"
  by (simp add: ins_def)

lemma set_ins: "set (ins sz m fl) = insert m (set fl)"
proof -
  obtain pre post where "fl = pre @ post" "ins sz m fl = pre @ m # post"
    by (rule ins_split)
  then show ?thesis by auto
qed

lemma distinct_ins: "distinct fl \<Longrightarrow> m \<notin> set fl \<Longrightarrow> distinct (ins sz m fl)"
proof -
  assume d: "distinct fl" and m: "m \<notin> set fl"
  obtain pre post where "fl = pre @ post" "ins sz m fl = pre @ m # post"
    by (rule ins_split)
  with d m show ?thesis by auto
qed

lemma sorted_ins:
  "sorted_wrt (\<lambda>a b. sz b \<le> sz a) fl \<Longrightarrow> sorted_wrt (\<lambda>a b. (sz b :: int) \<le> sz a) (ins sz m fl)"
proof (induction fl)
  case Nil
  then show ?case by (simp add: ins_def)
next
  case (Cons x xs)
  show ?case
  proof (cases "sz m < sz x")
    case True
    from Cons have "sorted_wrt (\<lambda>a b. sz b \<le> sz a) (ins sz m xs)" by simp
    moreover have "\<forall>y\<in>set (ins sz m xs). sz y \<le> sz x"
      using Cons.prems True by (auto simp: set_ins)
    ultimately show ?thesis using True by (simp add: ins_def)
  next
    case False
    with Cons.prems show ?thesis by (auto simp: ins_def)
  qed
qed

lemma ins_head:
  assumes "\<And>b. b \<in> set fl \<Longrightarrow> (sz b :: int) \<le> sz m"
  shows "ins sz m fl = m # fl"
proof (cases fl)
  case Nil
  then show ?thesis by (simp add: ins_def)
next
  case (Cons a list)
  with assms[of a] have "\<not> sz m < sz a" by simp
  with Cons show ?thesis by (simp add: ins_def)
qed

lemma ins_cong: "(\<And>b. b \<in> set fl \<Longrightarrow> sz' b = sz b) \<Longrightarrow> sz' m = sz m \<Longrightarrow> ins sz' m fl = ins sz m fl"
proof -
  assume a: "\<And>b. b \<in> set fl \<Longrightarrow> sz' b = sz b" and m: "sz' m = sz m"
  have "takeWhile (\<lambda>b. sz' m < sz' b) fl = takeWhile (\<lambda>b. sz m < sz b) fl"
    using a m by (intro takeWhile_cong) auto
  moreover have "dropWhile (\<lambda>b. sz' m < sz' b) fl = dropWhile (\<lambda>b. sz m < sz b) fl"
    using a m by (intro dropWhile_cong) auto
  ultimately show ?thesis by (simp add: ins_def)
qed

lemma sorted_wrt_remove1: "sorted_wrt R fl \<Longrightarrow> sorted_wrt R (remove1 m fl)"
  by (induction fl) (auto dest: notin_set_remove1)

lemma sorted_wrt_cong_set:
  "(\<And>a b. a \<in> set fl \<Longrightarrow> b \<in> set fl \<Longrightarrow> R' a b = R a b) \<Longrightarrow> sorted_wrt R' fl = sorted_wrt R fl"
  by (induction fl) auto

lemma last0_mem: "last ((0::int) # xs) = 0 \<or> last (0 # xs) \<in> set xs"
  by (cases "xs = []") auto

lemma hd0_mem: "hd0 xs = 0 \<or> hd0 xs \<in> set xs"
  by (cases xs) auto

lemma butlast_neq_last: "distinct xs \<Longrightarrow> b \<in> set (butlast xs) \<Longrightarrow> b \<noteq> last xs"
  by (induction xs) (auto split: if_splits dest: in_set_butlastD)

lemma last0_hd0_neq:
  assumes "set pre \<inter> set post = {}" "(0::int) \<notin> set pre"
  shows "last (0 # pre) \<noteq> hd0 post \<or> last (0 # pre) = 0"
proof (cases "pre = []")
  case True
  then show ?thesis by simp
next
  case False
  then have l: "last pre \<in> set pre" by simp
  with assms(2) have nz: "last pre \<noteq> 0" by metis
  show ?thesis
  proof (cases post)
    case Nil
    with nz False show ?thesis by simp
  next
    case (Cons c cs)
    with assms(1) l have "last pre \<noteq> c" by auto
    with Cons False show ?thesis by simp
  qed
qed

lemma last0_zero: "(0::int) \<notin> set xs \<Longrightarrow> (last (0 # xs) = 0) = (xs = [])"
proof (cases "xs = []")
  case True
  then show ?thesis by simp
next
  case False
  assume z: "0 \<notin> set xs"
  from False have "last xs \<in> set xs" by simp
  with z have "last xs \<noteq> 0" by metis
  with False show ?thesis by simp
qed

lemma hd0_zero: "0 \<notin> set xs \<Longrightarrow> (hd0 xs = 0) = (xs = [])"
  by (cases xs) auto

subsection \<open>\<open>insertFree\<close>\<close>

lemma insertFree_loop_res:
  "dlist (links st) p a fl 0 \<Longrightarrow>
   insertFree_loop st m p a =
     Some (last (p # takeWhile (\<lambda>b. m_size (mcbs st m) < m_size (mcbs st b)) fl),
           hd0 (dropWhile (\<lambda>b. m_size (mcbs st m) < m_size (mcbs st b)) fl))"
proof (induction fl arbitrary: p a)
  case Nil
  then show ?case by (subst insertFree_loop.simps) simp
next
  case (Cons x xs)
  from Cons.prems have x: "a = x" "x \<noteq> 0"
    and t: "dlist (links st) x (smaller (links st (mcbAddr x))) xs 0" by auto
  show ?case
  proof (cases "m_size (mcbs st m) < m_size (mcbs st x)")
    case True
    with x Cons.IH[OF t] show ?thesis by (subst insertFree_loop.simps) simp
  next
    case False
    with x show ?thesis by (subst insertFree_loop.simps) simp
  qed
qed

lemma insertFree_link_frame [simp]:
  "mcbs (insertFree_link m l s st) = mcbs st"
  "mcb (insertFree_link m l s st) = mcb st"
  "endMem (insertFree_link m l s st) = endMem st"
  "freelist (insertFree_link m l s st) = (if l \<noteq> 0 then freelist st else m)"
  by (simp_all add: insertFree_link_def Let_def)

lemma insertFree_link_links:
  assumes "m \<noteq> l" "m \<noteq> s" "l \<noteq> s \<or> l = 0"
  shows "links (insertFree_link m l s st) (mcbAddr x) =
     (if x = m then (links st (mcbAddr m))\<lparr>larger := l, smaller := s\<rparr>
      else if x = l \<and> l \<noteq> 0 then (links st (mcbAddr x))\<lparr>smaller := m\<rparr>
      else if x = s \<and> s \<noteq> 0 then (links st (mcbAddr x))\<lparr>larger := m\<rparr>
      else links st (mcbAddr x))"
  using assms by (auto simp: insertFree_link_def Let_def)

lemma insertFree_rep:
  assumes dl: "dlist (links st) 0 (freelist st) fl 0" and d: "distinct fl"
    and m: "m \<notin> set fl" "m \<noteq> 0"
  shows "\<exists>st'. insertFree m st = Some st' \<and> mcbs st' = mcbs st \<and> mcb st' = mcb st \<and>
           endMem st' = endMem st \<and>
           dlist (links st') 0 (freelist st') (ins (\<lambda>b. m_size (mcbs st b)) m fl) 0"
proof -
  let ?P = "\<lambda>b. m_size (mcbs st m) < m_size (mcbs st b)"
  define pre where "pre = takeWhile ?P fl"
  define post where "post = dropWhile ?P fl"
  define l where "l = last (0 # pre)"
  define s where "s = hd0 post"
  let ?L = "links st"
  let ?st = "insertFree_link m l s st"
  have fl: "fl = pre @ post" by (simp add: pre_def post_def)
  from dlist_nonzero[OF dl] fl have nz: "0 \<notin> set pre" "0 \<notin> set post" by auto
  from d fl have disj: "set pre \<inter> set post = {}" and dpre: "distinct pre"
    and dpost: "distinct post" by auto
  from m fl have mp: "m \<notin> set pre" "m \<notin> set post" by auto
  have l_mem: "l = 0 \<or> l \<in> set pre" unfolding l_def by (rule last0_mem)
  have s_mem: "s = 0 \<or> s \<in> set post" unfolding s_def by (rule hd0_mem)
  have l_last: "pre \<noteq> [] \<Longrightarrow> l = last pre" by (simp add: l_def)
  have s_hd: "post \<noteq> [] \<Longrightarrow> s = hd post" by (cases post) (auto simp: s_def)
  have l0: "(l = 0) = (pre = [])" unfolding l_def using nz by (intro last0_zero)
  have s0: "(s = 0) = (post = [])" unfolding s_def using nz by (intro hd0_zero)
  have ml: "m \<noteq> l" using mp m(2) l_mem by blast
  have ms: "m \<noteq> s" using mp m(2) s_mem by blast
  have ls: "l \<noteq> s \<or> l = 0" unfolding l_def s_def using disj nz by (intro last0_hd0_neq)
  note lk = insertFree_link_links[OF ml ms ls, of st]
  from dl obtain a' where a: "dlist ?L 0 (freelist st) pre a'" "dlist ?L l a' post 0"
    unfolding fl dlist_append l_def by blast
  from dlist_hd0[OF a(2)] have a': "a' = s" by (simp add: s_def)
  have res: "insertFree m st = Some ?st"
    using insertFree_loop_res[OF dl, of m]
    by (simp add: insertFree_def pre_def post_def l_def s_def)
  have A: "dlist (links ?st) 0 (freelist ?st) pre m"
  proof -
    have "dlist (links ?st) 0 (if pre = [] then m else freelist st) pre m"
    proof (rule dlist_end_update[OF a(1) dpre])
      fix b assume b: "b \<in> set (butlast pre)"
      then have bp: "b \<in> set pre" by (rule in_set_butlastD)
      then have "pre \<noteq> []" by auto
      from dpre b have "b \<noteq> last pre" by (rule butlast_neq_last)
      with l_last[OF \<open>pre \<noteq> []\<close>] have "b \<noteq> l" by simp
      moreover from bp mp have "b \<noteq> m" by auto
      moreover from bp disj s_mem have "b \<noteq> s \<or> s = 0" by blast
      ultimately show "links ?st (mcbAddr b) = ?L (mcbAddr b)" by (auto simp: lk)
    next
      assume ne: "pre \<noteq> []"
      then have e: "last pre = l" using l_last by simp
      show "links ?st (mcbAddr (last pre)) = (?L (mcbAddr (last pre)))\<lparr>smaller := m\<rparr>"
        unfolding e using l0 ne ml by (simp add: lk)
    qed
    with l0 show ?thesis by (cases "pre = []") simp_all
  qed
  have B: "dlist (links ?st) m s post 0"
  proof (rule dlist_hd_update[OF a(2)[unfolded a']])
    fix b assume b: "b \<in> set (tl post)"
    then have ne: "post \<noteq> []" by auto
    from b have bp: "b \<in> set post" by (rule list.set_sel(2)[OF ne])
    from b dpost have "b \<noteq> hd post" by (cases post) auto
    with s_hd[OF ne] have "b \<noteq> s" by simp
    moreover from bp mp have "b \<noteq> m" by auto
    moreover from bp disj l_mem have "b \<noteq> l \<or> l = 0" by blast
    ultimately show "links ?st (mcbAddr b) = ?L (mcbAddr b)" by (auto simp: lk)
  next
    assume ne: "post \<noteq> []"
    then have e: "hd post = s" using s_hd by simp
    show "links ?st (mcbAddr (hd post)) = (?L (mcbAddr (hd post)))\<lparr>larger := m\<rparr>"
      unfolding e using s0 ne ms ls by (auto simp: lk)
  qed
  have C: "dlist (links ?st) l m (m # post) 0"
    using B m(2) by (simp add: lk)
  have "dlist (links ?st) 0 (freelist ?st) (pre @ m # post) 0"
    unfolding dlist_append using A C l_def by auto
  with res show ?thesis by (auto simp: ins_def pre_def post_def)
qed

subsection \<open>\<open>removeFree\<close>\<close>

lemma removeFree_frame [simp]:
  "mcbs (removeFree m st) = mcbs st"
  "mcb (removeFree m st) = mcb st"
  "endMem (removeFree m st) = endMem st"
  by (simp_all add: removeFree_def Let_def)

lemma removeFree_links:
  assumes "larger (links st (mcbAddr m)) = l" "smaller (links st (mcbAddr m)) = s"
    and "m \<noteq> l" "m \<noteq> s" "l \<noteq> s \<or> l = 0"
  shows "links (removeFree m st) (mcbAddr x) =
     (if x = m then \<lparr>larger = 0, smaller = 0\<rparr>
      else if x = l \<and> l \<noteq> 0 then (links st (mcbAddr x))\<lparr>smaller := s\<rparr>
      else if x = s \<and> s \<noteq> 0 then (links st (mcbAddr x))\<lparr>larger := l\<rparr>
      else links st (mcbAddr x))"
    and "freelist (removeFree m st) = (if l = 0 then s else freelist st)"
  using assms by (auto simp: removeFree_def Let_def)

lemma removeFree_rep:
  assumes dl: "dlist (links st) 0 (freelist st) fl 0" and d: "distinct fl" and m: "m \<in> set fl"
  shows "dlist (links (removeFree m st)) 0 (freelist (removeFree m st)) (remove1 m fl) 0"
proof -
  from m obtain pre post where fl: "fl = pre @ m # post" by (auto simp: in_set_conv_decomp)
  with d have mp: "m \<notin> set pre" "m \<notin> set post" and dpre: "distinct pre" and dpost: "distinct post"
    and disj: "set pre \<inter> set post = {}" by auto
  define l where "l = last (0 # pre)"
  define s where "s = hd0 post"
  let ?L = "links st"
  let ?st = "removeFree m st"
  from dlist_nonzero[OF dl] fl have nz: "0 \<notin> set pre" "0 \<notin> set post" by auto
  note mid = dlist_mid[OF dl[unfolded fl], folded l_def s_def]
  have l_mem: "l = 0 \<or> l \<in> set pre" unfolding l_def by (rule last0_mem)
  have s_mem: "s = 0 \<or> s \<in> set post" unfolding s_def by (rule hd0_mem)
  have l_last: "pre \<noteq> [] \<Longrightarrow> l = last pre" by (simp add: l_def)
  have s_hd: "post \<noteq> [] \<Longrightarrow> s = hd post" by (cases post) (auto simp: s_def)
  have l0: "(l = 0) = (pre = [])" unfolding l_def using nz by (intro last0_zero)
  have s0: "(s = 0) = (post = [])" unfolding s_def using nz by (intro hd0_zero)
  have ml: "m \<noteq> l" using mp mid(3) l_mem by blast
  have ms: "m \<noteq> s" using mp mid(3) s_mem by blast
  have ls: "l \<noteq> s \<or> l = 0" unfolding l_def s_def using disj nz by (intro last0_hd0_neq)
  note lk = removeFree_links(1)[OF mid(1,2) ml ms ls]
  have fr: "freelist ?st = (if pre = [] then s else freelist st)"
    using removeFree_links(2)[OF mid(1,2) ml ms ls] l0 by simp
  have A: "dlist (links ?st) 0 (freelist ?st) pre s"
  proof -
    have "dlist (links ?st) 0 (if pre = [] then s else freelist st) pre s"
    proof (rule dlist_end_update[OF mid(4) dpre])
      fix b assume b: "b \<in> set (butlast pre)"
      then have bp: "b \<in> set pre" by (rule in_set_butlastD)
      then have "pre \<noteq> []" by auto
      from dpre b have "b \<noteq> last pre" by (rule butlast_neq_last)
      with l_last[OF \<open>pre \<noteq> []\<close>] have "b \<noteq> l" by simp
      moreover from bp mp have "b \<noteq> m" by auto
      moreover from bp disj s_mem have "b \<noteq> s \<or> s = 0" by blast
      ultimately show "links ?st (mcbAddr b) = ?L (mcbAddr b)" by (auto simp: lk)
    next
      assume ne: "pre \<noteq> []"
      then have e: "last pre = l" using l_last by simp
      show "links ?st (mcbAddr (last pre)) = (?L (mcbAddr (last pre)))\<lparr>smaller := s\<rparr>"
        unfolding e using l0 ne ml by (simp add: lk)
    qed
    with fr show ?thesis by (cases "pre = []") simp_all
  qed
  have B: "dlist (links ?st) l s post 0"
  proof (rule dlist_hd_update[OF mid(5)])
    fix b assume b: "b \<in> set (tl post)"
    then have ne: "post \<noteq> []" by auto
    from b have bp: "b \<in> set post" by (rule list.set_sel(2)[OF ne])
    from b dpost have "b \<noteq> hd post" by (cases post) auto
    with s_hd[OF ne] have "b \<noteq> s" by simp
    moreover from bp mp have "b \<noteq> m" by auto
    moreover from bp disj l_mem have "b \<noteq> l \<or> l = 0" by blast
    ultimately show "links ?st (mcbAddr b) = ?L (mcbAddr b)" by (auto simp: lk)
  next
    assume ne: "post \<noteq> []"
    then have e: "hd post = s" using s_hd by simp
    show "links ?st (mcbAddr (hd post)) = (?L (mcbAddr (hd post)))\<lparr>larger := l\<rparr>"
      unfolding e using s0 ne ms ls by (auto simp: lk)
  qed
  have "dlist (links ?st) 0 (freelist ?st) (pre @ post) 0"
    unfolding dlist_append using A B l_def by auto
  moreover have "remove1 m fl = pre @ post" using fl mp by (simp add: remove1_append)
  ultimately show ?thesis by simp
qed

subsection \<open>More on the block chain\<close>

lemma chain_prev_mem: "chain h e p a bs \<Longrightarrow> b \<in> set bs \<Longrightarrow> m_prev (h b) = p \<or> m_prev (h b) \<in> set bs"
proof (induction bs arbitrary: p a)
  case Nil
  then show ?case by simp
next
  case (Cons x xs)
  from Cons.prems(1) have x: "m_prev (h x) = p"
    and t: "chain h e x (x + 16 + m_size (h x)) xs" by auto
  show ?case
  proof (cases "b = x")
    case True
    with x show ?thesis by simp
  next
    case False
    with Cons.prems(2) have "b \<in> set xs" by simp
    from Cons.IH[OF t this] show ?thesis by auto
  qed
qed

lemma chain_split:
  assumes c: "chain h e p0 a0 (pre @ a # post)"
    and pre: "\<And>c. c \<in> set pre \<Longrightarrow> m_prev (h' c) = m_prev (h c) \<and> m_size (h' c) = m_size (h c)"
    and a: "m_prev (h' a) = m_prev (h a)" "m_size (h' a) = s1" "16 \<le> s1"
    and n: "n = a + 16 + s1" "m_prev (h' n) = a" "m_size (h' n) = m_size (h a) - s1 - 16"
      "16 \<le> m_size (h' n)"
    and post: "\<And>c. c \<in> set post \<Longrightarrow> m_size (h' c) = m_size (h c)"
      "\<And>c. c \<in> set (tl post) \<Longrightarrow> m_prev (h' c) = m_prev (h c)"
      "post \<noteq> [] \<Longrightarrow> m_prev (h' (hd post)) = n"
  shows "chain h' e p0 a0 (pre @ a # n # post)"
proof -
  from c obtain a' where c1: "chain h a' p0 a0 pre" and c2: "chain h e (last (p0 # pre)) a' (a # post)"
    unfolding chain_append by blast
  from c2 have a': "a' = a" and pa: "m_prev (h a) = last (p0 # pre)"
    and t: "chain h e a (a + 16 + m_size (h a)) post" by auto
  have "chain h' a' p0 a0 pre = chain h a' p0 a0 pre" using pre by (intro chain_cong) auto
  with c1 have c1': "chain h' a' p0 a0 pre" by simp
  have eq: "n + 16 + m_size (h' n) = a + 16 + m_size (h a)" using n by simp
  have tn: "chain h' e n (n + 16 + m_size (h' n)) post"
    unfolding eq using post by (intro chain_hd_prev[OF t]) auto
  have "chain h' e a (a + 16 + m_size (h' a)) (n # post)"
    using tn n a by simp
  with a pa a' have "chain h' e (last (p0 # pre)) a' (a # n # post)" by simp
  with c1' show ?thesis unfolding chain_append by blast
qed

lemma chain_merge:
  assumes c: "chain h e p0 a0 (pre @ a # b # post)"
    and pre: "\<And>c. c \<in> set pre \<Longrightarrow> m_prev (h' c) = m_prev (h c) \<and> m_size (h' c) = m_size (h c)"
    and a: "m_prev (h' a) = m_prev (h a)" "m_size (h' a) = m_size (h a) + 16 + m_size (h b)"
    and post: "\<And>c. c \<in> set post \<Longrightarrow> m_size (h' c) = m_size (h c)"
      "\<And>c. c \<in> set (tl post) \<Longrightarrow> m_prev (h' c) = m_prev (h c)"
      "post \<noteq> [] \<Longrightarrow> m_prev (h' (hd post)) = a"
  shows "chain h' e p0 a0 (pre @ a # post)"
proof -
  from c obtain a' where c1: "chain h a' p0 a0 pre" and c2: "chain h e (last (p0 # pre)) a' (a # b # post)"
    unfolding chain_append by blast
  from c2 have a': "a' = a" and pa: "m_prev (h a) = last (p0 # pre)" "16 \<le> m_size (h a)"
    and b: "b = a + 16 + m_size (h a)" "16 \<le> m_size (h b)"
    and t: "chain h e b (b + 16 + m_size (h b)) post" by auto
  have "chain h' a' p0 a0 pre = chain h a' p0 a0 pre" using pre by (intro chain_cong) auto
  with c1 have c1': "chain h' a' p0 a0 pre" by simp
  have eq: "a + 16 + m_size (h' a) = b + 16 + m_size (h b)" using a b by simp
  have "chain h' e a (a + 16 + m_size (h' a)) post"
    unfolding eq using post by (intro chain_hd_prev[OF t]) auto
  with a pa b a' have "chain h' e (last (p0 # pre)) a' (a # post)" by simp
  with c1' show ?thesis unfolding chain_append by blast
qed

lemma mcbNext_chain:
  assumes "chain (mcbs st) (endMem st) p a (pre @ m # post)"
  shows "mcbNext st m = hd0 post"
proof (cases post)
  case Nil
  with chain_mid(4)[OF assms] show ?thesis by (simp add: mcbNext_def)
next
  case (Cons c cs)
  with chain_mid(5)[OF assms] show ?thesis by (simp add: mcbNext_def)
qed

lemma mcbNext_cong:
  "m_size (mcbs st' m) = m_size (mcbs st m) \<Longrightarrow> endMem st' = endMem st \<Longrightarrow> mcbNext st' m = mcbNext st m"
  by (simp add: mcbNext_def)

subsection \<open>Consequences of the representation\<close>

lemma rep_head:
  assumes "alloc_rep st bs fl" "freelist st \<noteq> 0"
  shows "\<exists>fl'. fl = freelist st # fl'" "freelist st \<in> set bs"
    "m_magic (mcbs st (freelist st)) = MAGIC_FREE"
    "\<And>b. b \<in> set fl \<Longrightarrow> m_size (mcbs st b) \<le> m_size (mcbs st (freelist st))"
proof -
  from assms(1) have f: "free_ok st bs fl" by (simp add: alloc_rep_def)
  then have dl: "dlist (links st) 0 (freelist st) fl 0" by (simp add: free_ok_def)
  from dlist_hd0[OF dl] assms(2) obtain fl' where fl: "fl = freelist st # fl'"
    by (cases fl) auto
  then show "\<exists>fl'. fl = freelist st # fl'" by blast
  from f fl show "freelist st \<in> set bs" "m_magic (mcbs st (freelist st)) = MAGIC_FREE"
    by (auto simp: free_ok_def)
  fix b assume b: "b \<in> set fl"
  from f have "sorted_wrt (\<lambda>a b. m_size (mcbs st b) \<le> m_size (mcbs st a)) fl"
    by (simp add: free_ok_def)
  with fl b show "m_size (mcbs st b) \<le> m_size (mcbs st (freelist st))"
    by auto
qed

lemma rep_sizes:
  assumes "heap_ok st bs" "b \<in> set bs"
  shows "16 \<le> m_size (mcbs st b)" "m_size (mcbs st b) < 2 ^ 31" "0 < b" "mcb st \<le> b"
    "b + 16 + m_size (mcbs st b) \<le> endMem st"
proof -
  from assms(1) have c: "chain (mcbs st) (endMem st) 0 (mcb st) bs" and p: "0 < mcb st"
    and e: "endMem st - mcb st < 2 ^ 31" by (auto simp: heap_ok_def)
  from assms(2) obtain pre post where bs: "bs = pre @ b # post" by (auto simp: in_set_conv_decomp)
  from chain_mid[OF c[unfolded bs]] show s: "16 \<le> m_size (mcbs st b)" by simp
  from chain_bounds[OF c assms(2)] p show "0 < b" "mcb st \<le> b" by auto
  from chain_mid(3)[OF c[unfolded bs]] have "b + 16 + m_size (mcbs st b) \<le> endMem st"
    by (rule chain_le)
  then show "b + 16 + m_size (mcbs st b) \<le> endMem st" .
  with chain_bounds[OF c assms(2)] e show "m_size (mcbs st b) < 2 ^ 31" by simp
qed

subsection \<open>\<open>memAlloc\<close>\<close>

lemma memAlloc_take_fields:
  "m_size (mcbs (memAlloc_take s2 m st) c) = (if c = m then s2 else m_size (mcbs st c))"
  "m_magic (mcbs (memAlloc_take s2 m st) c) = (if c = m then MAGIC_USED else m_magic (mcbs st c))"
  "m_prev (mcbs (memAlloc_take s2 m st) c) = m_prev (mcbs st c)"
  "mcb (memAlloc_take s2 m st) = mcb st"
  "endMem (memAlloc_take s2 m st) = endMem st"
  "links (memAlloc_take s2 m st) = links (removeFree m st)"
  "freelist (memAlloc_take s2 m st) = freelist (removeFree m st)"
  by (simp_all add: memAlloc_take_def Let_def)

lemma memAlloc_split_pre:
  assumes "n = mcbAddr m + sz" "n \<noteq> m" "nx = mcbNext st m" "nx \<noteq> n"
    and "to_int ((to_size_t bal - 16) mod 2 ^ 64) = bal'"
  shows "\<exists>st5. memAlloc_split sz bal m st = insertFree n st5 \<and>
    mcb st5 = mcb st \<and> endMem st5 = endMem st \<and> freelist st5 = freelist st \<and>
    (\<forall>c. m_size (mcbs st5 c) = (if c = n then bal' else m_size (mcbs st c))) \<and>
    (\<forall>c. m_magic (mcbs st5 c) = (if c = n then MAGIC_FREE else m_magic (mcbs st c))) \<and>
    (\<forall>c. m_prev (mcbs st5 c) =
        (if c = n then m else if c = nx \<and> nx \<noteq> 0 then n else m_prev (mcbs st c))) \<and>
    (\<forall>c. c \<noteq> n \<longrightarrow> links st5 (mcbAddr c) = links st (mcbAddr c))"
proof -
  have nx: "mcbNext (st\<lparr>mcbs := (mcbs st)(n := (mcbs st n)\<lparr>m_prev := m\<rparr>)\<rparr>) m = nx"
    using assms(2,3) by (simp add: mcbNext_def)
  show ?thesis
    by (rule exI[of _ "(let st1 = st\<lparr>mcbs := (mcbs st)(n := (mcbs st n)\<lparr>m_prev := m\<rparr>)\<rparr>;
          st2 = (if nx \<noteq> 0
                 then st1\<lparr>mcbs := (mcbs st1)(nx := (mcbs st1 nx)\<lparr>m_prev := n\<rparr>)\<rparr>
                 else st1);
          st3 = st2\<lparr>mcbs := (mcbs st2)(n := (mcbs st2 n)\<lparr>m_magic := MAGIC_FREE\<rparr>)\<rparr>;
          st4 = st3\<lparr>mcbs := (mcbs st3)(n := (mcbs st3 n)
                   \<lparr>m_size := to_int ((to_size_t bal - sizeof_mcb_t) mod 2 ^ 64)\<rparr>)\<rparr>
      in st4\<lparr>links := (links st4)(mcbAddr n := \<lparr>larger = 0, smaller = 0\<rparr>)\<rparr>)"])
      (use assms nx in \<open>auto simp: memAlloc_split_def Let_def\<close>)
qed

lemma ins_skip: "sz m < sz x \<Longrightarrow> ins sz m (x # xs) = x # ins sz m xs"
  by (simp add: ins_def)

lemma not_in_chain:
  assumes c: "chain h e p a bs" and m: "m \<in> set bs" and n: "m < n" "n < m + 16 + m_size (h m)"
  shows "n \<notin> set bs"
proof
  assume nb: "n \<in> set bs"
  from chain_gap[OF c m nb n(1)] n(2) show False by simp
qed

lemma memAlloc_rep_whole:
  assumes rep: "alloc_rep st bs fl" and sz: "alloc_size n = sz" "16 \<le> sz"
    and ok: "freelist st \<noteq> 0" "sz \<le> m_size (mcbs st (freelist st))"
    and bal: "m_size (mcbs st (freelist st)) - sz \<le> 32"
  shows "\<exists>st'. memAlloc n st = Some (mcbAddr (freelist st), st') \<and> alloc_rep st' bs (tl fl) \<and>
           mcb st' = mcb st \<and> endMem st' = endMem st \<and>
           (\<forall>c. m_size (mcbs st' c) = m_size (mcbs st c)) \<and>
           (\<forall>c. m_prev (mcbs st' c) = m_prev (mcbs st c)) \<and>
           (\<forall>c. m_magic (mcbs st' c) = (if c = freelist st then MAGIC_USED else m_magic (mcbs st c)))"
proof -
  let ?m = "freelist st"
  let ?h = "mcbs st"
  from rep have h: "heap_ok st bs" and f: "free_ok st bs fl" and co: "coalesced st bs"
    by (auto simp: alloc_rep_def)
  from rep_head[OF rep ok(1)] obtain fl' where fl: "fl = ?m # fl'" and mb: "?m \<in> set bs"
    and mf: "m_magic (?h ?m) = MAGIC_FREE" by blast
  note ms = rep_sizes[OF h mb]
  let ?bal = "m_size (?h ?m) - sz"
  have b1: "to_int ?bal = ?bal" using ms sz ok by (intro to_int_id) auto
  have b2: "to_size_t ?bal = ?bal" using ms sz ok by (intro to_size_t_small) auto
  have b3: "to_int (sz + ?bal) = m_size (?h ?m)" using ms by (simp add: to_int_id)
  let ?st = "memAlloc_take (m_size (?h ?m)) ?m st"
  have res: "memAlloc n st = Some (mcbAddr ?m, ?st)"
    using sz ok bal b1 b2 b3 by (simp add: memAlloc_def Let_def)
  note F = memAlloc_take_fields(2-)[of "m_size (?h ?m)" ?m st]
  have Z: "\<And>c. m_size (mcbs ?st c) = m_size (?h c)"
    by (simp add: memAlloc_take_fields)
  from f have dl: "dlist (links st) 0 ?m fl 0" and d: "distinct fl"
    and sf: "set fl = {b \<in> set bs. m_magic (?h b) = MAGIC_FREE}"
    and so: "sorted_wrt (\<lambda>a b. m_size (?h b) \<le> m_size (?h a)) fl"
    by (auto simp: free_ok_def)
  have dl': "dlist (links ?st) 0 (freelist ?st) fl' 0"
    using removeFree_rep[OF dl d, of ?m] fl by (simp add: F)
  have H: "heap_ok ?st bs"
  proof -
    from h have c: "chain ?h (endMem st) 0 (mcb st) bs" by (simp add: heap_ok_def)
    have "chain (mcbs ?st) (endMem st) 0 (mcb st) bs = chain ?h (endMem st) 0 (mcb st) bs"
      by (intro chain_cong) (simp add: F Z)
    with c h mb show ?thesis by (auto simp: heap_ok_def F)
  qed
  have Fr: "free_ok ?st bs fl'"
  proof -
    have "set fl' = {b \<in> set bs. m_magic (mcbs ?st b) = MAGIC_FREE}"
      using sf d fl mf by (auto simp: F)
    moreover have "sorted_wrt (\<lambda>a b. m_size (mcbs ?st b) \<le> m_size (mcbs ?st a)) fl'"
      using so fl by (simp add: Z)
    ultimately show ?thesis using dl' d fl by (simp add: free_ok_def)
  qed
  have Co: "coalesced ?st bs"
    using co by (auto simp: coalesced_def F)
  from res H Fr Co fl show ?thesis by (simp add: alloc_rep_def F Z)
qed

lemma memAlloc_rep_split:
  assumes rep: "alloc_rep st bs fl" and sz: "alloc_size n = sz" "16 \<le> sz"
    and ok: "freelist st \<noteq> 0" "sz \<le> m_size (mcbs st (freelist st))"
    and bal: "32 < m_size (mcbs st (freelist st)) - sz"
    and bs: "bs = pre @ freelist st # post"
    and nn: "nb = freelist st + 16 + sz"
  shows "\<exists>st'. memAlloc n st = Some (mcbAddr (freelist st), st') \<and>
           alloc_rep st' (pre @ freelist st # nb # post)
             (ins (\<lambda>b. m_size (mcbs st' b)) nb (tl fl)) \<and>
           mcb st' = mcb st \<and> endMem st' = endMem st \<and> nb \<notin> set bs \<and>
           (\<forall>c. m_size (mcbs st' c) =
              (if c = freelist st then sz
               else if c = nb then m_size (mcbs st (freelist st)) - sz - 16
               else m_size (mcbs st c))) \<and>
           (\<forall>c. m_prev (mcbs st' c) =
              (if c = nb then freelist st
               else if c = hd0 post \<and> post \<noteq> [] then nb
               else m_prev (mcbs st c))) \<and>
           (\<forall>c. m_magic (mcbs st' c) =
              (if c = freelist st then MAGIC_USED
               else if c = nb then MAGIC_FREE
               else m_magic (mcbs st c)))"
proof -
  define m where "m = freelist st"
  define nx where "nx = hd0 post"
  let ?h = "mcbs st"
  note bs' = bs[folded m_def]
  from rep have h: "heap_ok st bs" and f: "free_ok st bs fl" and co: "coalesced st bs"
    by (auto simp: alloc_rep_def)
  from h have c: "chain ?h (endMem st) 0 (mcb st) bs" by (simp add: heap_ok_def)
  from rep_head[OF rep ok(1)] obtain fl' where fl: "fl = m # fl'" and mb: "m \<in> set bs"
    and mf: "m_magic (?h m) = MAGIC_FREE" unfolding m_def by blast
  note ms = rep_sizes[OF h mb]
  define bal' where "bal' = m_size (?h m) - sz"
  have balp: "32 < bal'" "bal' < 2 ^ 31" "bal' = m_size (?h m) - sz"
    using bal ms sz by (auto simp: bal'_def m_def)
  have b1: "to_int (m_size (?h m) - sz) = bal'" unfolding bal'_def using ms sz ok 
    by (intro to_int_id) (auto simp: m_def)
  have b2: "to_size_t bal' = bal'" using balp by (intro to_size_t_small) auto
  have b4: "to_int ((to_size_t bal' - 16) mod 2 ^ 64) = bal' - 16"
    using balp by (intro size_sub) auto
  from f have dl: "dlist (links st) 0 (freelist st) fl 0" and d: "distinct fl"
    and sf: "set fl = {b \<in> set bs. m_magic (?h b) = MAGIC_FREE}"
    and so: "sorted_wrt (\<lambda>a b. m_size (?h b) \<le> m_size (?h a)) fl"
    by (auto simp: free_ok_def)
  from chain_distinct[OF c] bs' have dis: "m \<notin> set pre" "m \<notin> set post" "distinct post"
    "set pre \<inter> set post = {}" by auto
  have nnb: "nb \<notin> set bs"
    using balp sz nn by (intro not_in_chain[OF c mb]) (auto simp: m_def)
  have nm: "nb \<noteq> m" using nn sz by (simp add: m_def)
  have n0: "nb \<noteq> 0" using nn sz ms by (simp add: m_def)
  have nx: "mcbNext st m = nx" unfolding nx_def
    using c bs' by (intro mcbNext_chain[of st 0 "mcb st" pre]) simp
  have nx_mem: "nx = 0 \<or> nx \<in> set post" unfolding nx_def by (rule hd0_mem)
  have nx0: "(nx = 0) = (post = [])" unfolding nx_def
    using rep_sizes(3)[OF h] bs' by (intro hd0_zero) fastforce
  have nx_hd: "post \<noteq> [] \<Longrightarrow> hd post = nx" unfolding nx_def by (cases post) auto
  have nxn: "nx \<noteq> nb" using nx_mem n0 nnb bs' by auto
  have nxm: "nx \<noteq> m" using nx_mem dis ms(3) by auto
  have nna: "nb = mcbAddr m + sz" using nn by (simp add: mcbAddr_def m_def)
  from memAlloc_split_pre[OF nna nm nx[symmetric] nxn b4]
  obtain st5 where s5: "memAlloc_split sz bal' m st = insertFree nb st5"
    "mcb st5 = mcb st" "endMem st5 = endMem st" "freelist st5 = freelist st"
    and z5: "\<And>c. m_size (mcbs st5 c) = (if c = nb then bal' - 16 else m_size (?h c))"
    and g5: "\<And>c. m_magic (mcbs st5 c) = (if c = nb then MAGIC_FREE else m_magic (?h c))"
    and p5: "\<And>c. m_prev (mcbs st5 c) =
        (if c = nb then m else if c = nx \<and> nx \<noteq> 0 then nb else m_prev (?h c))"
    and l5: "\<And>c. c \<noteq> nb \<Longrightarrow> links st5 (mcbAddr c) = links st (mcbAddr c)"
    by blast
  have flb: "set fl \<subseteq> set bs" using sf by auto
  have nfl: "nb \<notin> set fl" using nnb flb by auto
  have "dlist (links st5) 0 (freelist st) fl 0 = dlist (links st) 0 (freelist st) fl 0"
    using nfl by (intro dlist_cong l5) auto
  with dl s5 have dl5: "dlist (links st5) 0 (freelist st5) fl 0" by simp
  from insertFree_rep[OF dl5 d nfl n0] obtain st6 where s6: "insertFree nb st5 = Some st6"
    "mcbs st6 = mcbs st5" "mcb st6 = mcb st5" "endMem st6 = endMem st5"
    and dl6: "dlist (links st6) 0 (freelist st6) (ins (\<lambda>b. m_size (mcbs st5 b)) nb fl) 0"
    by blast
  define sz5 where "sz5 = (\<lambda>b. m_size (mcbs st5 b))"
  note dl6' = dl6[folded sz5_def]
  have i6: "ins sz5 nb fl = m # ins sz5 nb fl'"
    unfolding fl using nm balp sz(2) by (intro ins_skip) (simp add: z5 sz5_def)
  have d6: "distinct (ins sz5 nb fl)" using d nfl by (rule distinct_ins)
  define st' where "st' = memAlloc_take sz m st6"
  note F = memAlloc_take_fields[of sz m st6, folded st'_def]
  have res: "memAlloc n st = Some (mcbAddr m, st')"
    using sz ok balp b1 b2 s5 s6 by (simp add: memAlloc_def Let_def m_def[symmetric] st'_def)
  have Z: "\<And>c. m_size (mcbs st' c) = (if c = m then sz else if c = nb then bal' - 16 else m_size (?h c))"
    by (simp add: F s6 z5)
  have G: "\<And>c. m_magic (mcbs st' c) =
      (if c = m then MAGIC_USED else if c = nb then MAGIC_FREE else m_magic (?h c))"
    by (simp add: F s6 g5)
  have P: "\<And>c. m_prev (mcbs st' c) =
      (if c = nb then m else if c = nx \<and> nx \<noteq> 0 then nb else m_prev (?h c))"
    by (simp add: F s6 p5)
  have dl': "dlist (links st') 0 (freelist st') (ins sz5 nb fl') 0"
    using removeFree_rep[OF dl6' d6, of m] i6 by (simp add: F)
  have ic: "ins (\<lambda>b. m_size (mcbs st' b)) nb fl' = ins sz5 nb fl'"
    using d fl nm by (intro ins_cong) (auto simp: Z z5 sz5_def)
  define fl2 where "fl2 = ins (\<lambda>b. m_size (mcbs st' b)) nb fl'"
  define bs2 where "bs2 = pre @ m # nb # post"
  have H: "heap_ok st' bs2"
  proof -
    have "chain (mcbs st') (endMem st) 0 (mcb st) (pre @ m # nb # post)"
    proof (rule chain_split[OF c[unfolded bs']])
      fix c assume cp: "c \<in> set pre"
      with dis nnb bs' nx_mem have "c \<noteq> m" "c \<noteq> nb" "c \<noteq> nx \<or> nx = 0" by auto
      then show "m_prev (mcbs st' c) = m_prev (?h c) \<and> m_size (mcbs st' c) = m_size (?h c)"
        by (auto simp: Z P)
    next
      show "m_prev (mcbs st' m) = m_prev (?h m)" using nm nxm by (simp add: P)
      show "m_size (mcbs st' m) = sz" by (simp add: Z)
      show "16 \<le> sz" by fact
      show "nb = m + 16 + sz" using nn by (simp add: m_def)
      show "m_prev (mcbs st' nb) = m" by (simp add: P)
      show "m_size (mcbs st' nb) = m_size (?h m) - sz - 16" using nm balp by (simp add: Z)
      show "16 \<le> m_size (mcbs st' nb)" using nm balp by (simp add: Z)
    next
      fix c assume "c \<in> set post"
      with dis nnb bs' have "c \<noteq> m" "c \<noteq> nb" by auto
      then show "m_size (mcbs st' c) = m_size (?h c)" by (simp add: Z)
    next
      fix c assume cp: "c \<in> set (tl post)"
      then have ne: "post \<noteq> []" by auto
      from cp dis(3) have "c \<noteq> hd post" by (cases post) auto
      with nx_hd[OF ne] have "c \<noteq> nx" by simp
      moreover from cp have "c \<in> set post" by (rule list.set_sel(2)[OF ne])
      with nnb bs' have "c \<noteq> nb" by auto
      ultimately show "m_prev (mcbs st' c) = m_prev (?h c)" by (simp add: P)
    next
      assume ne: "post \<noteq> []"
      with nx0 have "nx \<noteq> 0" by simp
      with nxn show "m_prev (mcbs st' (hd post)) = nb" unfolding nx_hd[OF ne] by (simp add: P)
    qed
    moreover have "\<forall>b\<in>set bs2. m_magic (mcbs st' b) = MAGIC_USED \<or> m_magic (mcbs st' b) = MAGIC_FREE"
      using h bs' by (auto simp: heap_ok_def G bs2_def)
    moreover have "\<forall>a. m_magic (mcbs st' a) = MAGIC_USED \<longrightarrow> a \<in> set bs2"
      using h bs' by (auto simp: heap_ok_def G bs2_def split: if_splits)
    ultimately show ?thesis using h s5 s6 by (simp add: heap_ok_def F bs2_def)
  qed
  have Fr: "free_ok st' bs2 fl2"
  proof -
    have "set fl2 = {b \<in> set bs2. m_magic (mcbs st' b) = MAGIC_FREE}"
      using sf d fl mf nnb bs' by (auto simp: set_ins G fl2_def bs2_def)
    moreover have "sorted_wrt (\<lambda>a b. m_size (mcbs st' b) \<le> m_size (mcbs st' a)) fl2"
      unfolding fl2_def
    proof (rule sorted_ins)
      have "sorted_wrt (\<lambda>a b. m_size (mcbs st' b) \<le> m_size (mcbs st' a)) fl' =
            sorted_wrt (\<lambda>a b. m_size (?h b) \<le> m_size (?h a)) fl'"
        using d fl nfl by (intro sorted_wrt_cong_set) (auto simp: Z)
      with so fl show "sorted_wrt (\<lambda>a b. m_size (mcbs st' b) \<le> m_size (mcbs st' a)) fl'"
        by simp
    qed
    moreover have "distinct fl2" unfolding fl2_def using d fl nfl by (intro distinct_ins) auto
    ultimately show ?thesis using dl' ic by (simp add: free_ok_def fl2_def)
  qed
  have Co: "coalesced st' bs2"
    unfolding coalesced_def
  proof (intro ballI impI)
    fix b assume b: "b \<in> set bs2" and bf: "m_magic (mcbs st' b) = MAGIC_FREE"
      and bp: "m_prev (mcbs st' b) \<noteq> 0"
    from bf have bm: "b \<noteq> m" by (auto simp: G)
    show "m_magic (mcbs st' (m_prev (mcbs st' b))) \<noteq> MAGIC_FREE"
    proof (cases "b = nb")
      case True
      then show ?thesis by (simp add: P G)
    next
      case False
      with b bm bs' have bb: "b \<in> set bs" by (auto simp: bs2_def)
      from bf bm False have bf': "m_magic (?h b) = MAGIC_FREE" by (simp add: G)
      show ?thesis
      proof (cases "b = nx \<and> nx \<noteq> 0")
        case True
        with nx0 nx_hd have "post \<noteq> []" "hd post = b" by auto
        with chain_mid(5)[OF c[unfolded bs']] have "m_prev (?h b) = m" by auto
        with co bb bf' mf ms(3) show ?thesis by (auto simp: coalesced_def)
      next
        case F2: False
        with False have pb: "m_prev (mcbs st' b) = m_prev (?h b)" by (auto simp: P)
        from chain_prev_mem[OF c bb] bp pb have "m_prev (?h b) \<in> set bs" by auto
        with nnb have "m_prev (?h b) \<noteq> nb" by auto
        moreover from co bb bf' bp pb have "m_magic (?h (m_prev (?h b))) \<noteq> MAGIC_FREE"
          by (auto simp: coalesced_def)
        ultimately show ?thesis using pb by (simp add: G)
      qed
    qed
  qed
  have P': "\<And>c. m_prev (mcbs st' c) =
      (if c = nb then m else if c = hd0 post \<and> post \<noteq> [] then nb else m_prev (?h c))"
    using nx0 by (auto simp: P nx_def)
  have tlfl: "tl fl = fl'" using fl by simp
  from res H Fr Co nnb s5 s6 Z G P' show ?thesis
    unfolding m_def[symmetric] tlfl balp(3)[symmetric]
    by (intro exI[of _ st']) (simp add: alloc_rep_def F fl2_def bs2_def)
qed

subsection \<open>\<open>memFree\<close>\<close>

lemma chain_prev_tl: "chain h e p a bs \<Longrightarrow> b \<in> set (tl bs) \<Longrightarrow> m_prev (h b) \<in> set bs"
proof (cases bs)
  case Nil
  assume "b \<in> set (tl bs)" with Nil show ?thesis by simp
next
  case (Cons y ys)
  assume c: "chain h e p a bs" and b: "b \<in> set (tl bs)"
  from c Cons have t: "chain h e y (y + 16 + m_size (h y)) ys" by simp
  from b Cons have "b \<in> set ys" by simp
  from chain_prev_mem[OF t this] Cons show ?thesis by auto
qed

text \<open>The only block whose back link is \<open>x\<close> is the successor of \<open>x\<close>.\<close>

lemma chain_succ:
  assumes c: "chain h e p a (pre @ x # post)" and b: "b \<in> set (pre @ x # post)"
    and pb: "m_prev (h b) = x" and px: "p \<notin> set (pre @ x # post)"
  shows "post \<noteq> [] \<and> b = hd post"
proof -
  from chain_distinct[OF c] have d: "x \<notin> set pre" "x \<notin> set post" by auto
  from c obtain a' where c1: "chain h a' p a pre" and c2: "chain h e (last (p # pre)) a' (x # post)"
    unfolding chain_append by blast
  from c2 have t: "chain h e x (x + 16 + m_size (h x)) post"
    and xp: "m_prev (h x) = last (p # pre)" by auto
  have lp: "last (p # pre) \<noteq> x" using d px last_in_set[of pre] by (cases "pre = []") auto
  show ?thesis
  proof (cases "b \<in> set pre")
    case True
    from chain_prev_mem[OF c1 True] pb d px show ?thesis by auto
  next
    case False
    show ?thesis
    proof (cases "b = x")
      case True
      with xp pb lp show ?thesis by simp
    next
      case F2: False
      with False b have bp: "b \<in> set post" by simp
      show ?thesis
      proof (cases "b \<in> set (tl post)")
        case True
        from chain_prev_tl[OF t True] pb d show ?thesis by simp
      next
        case F3: False
        with bp show ?thesis by (cases post) auto
      qed
    qed
  qed
qed

lemma mid_repD:
  assumes "mid_rep st bs fl m"
  shows "heap_ok st bs" "m \<in> set bs" "m_magic (mcbs st m) = MAGIC_FREE"
    "dlist (links st) 0 (freelist st) fl 0" "distinct fl"
    "set fl = {b \<in> set bs. m_magic (mcbs st b) = MAGIC_FREE \<and> b \<noteq> m}"
    "sorted_wrt (\<lambda>a b. m_size (mcbs st b) \<le> m_size (mcbs st a)) fl"
    "\<forall>b\<in>set bs. m_magic (mcbs st b) = MAGIC_FREE \<longrightarrow> m_prev (mcbs st b) \<noteq> 0 \<longrightarrow>
         m_magic (mcbs st (m_prev (mcbs st b))) = MAGIC_FREE \<longrightarrow> b = m \<or> m_prev (mcbs st b) = m"
  using assms unfolding mid_rep_def by blast+

lemma pre_repD:
  assumes "pre_rep st bs fl x"
  shows "heap_ok st bs" "free_ok st bs fl" "x \<in> set bs" "m_magic (mcbs st x) = MAGIC_FREE"
    "m_prev (mcbs st x) = 0 \<or> m_magic (mcbs st (m_prev (mcbs st x))) \<noteq> MAGIC_FREE"
    "\<forall>b\<in>set bs. m_magic (mcbs st b) = MAGIC_FREE \<longrightarrow> m_prev (mcbs st b) \<noteq> 0 \<longrightarrow>
         m_magic (mcbs st (m_prev (mcbs st b))) = MAGIC_FREE \<longrightarrow> m_prev (mcbs st b) = x"
  using assms unfolding pre_rep_def by blast+

lemma free_okD:
  assumes "free_ok st bs fl"
  shows "dlist (links st) 0 (freelist st) fl 0" "distinct fl"
    "set fl = {b \<in> set bs. m_magic (mcbs st b) = MAGIC_FREE}"
    "sorted_wrt (\<lambda>a b. m_size (mcbs st b) \<le> m_size (mcbs st a)) fl"
  using assms unfolding free_ok_def by blast+

lemma heap_okD:
  assumes "heap_ok st bs"
  shows "0 < mcb st" "endMem st - mcb st < 2 ^ 31" "bs \<noteq> []"
    "chain (mcbs st) (endMem st) 0 (mcb st) bs"
    "\<forall>b\<in>set bs. m_magic (mcbs st b) = MAGIC_USED \<or> m_magic (mcbs st b) = MAGIC_FREE"
    "\<forall>a. m_magic (mcbs st a) = MAGIC_USED \<longrightarrow> a \<in> set bs"
  using assms unfolding heap_ok_def by blast+

lemma mark_free:
  assumes rep: "alloc_rep st bs fl" and m: "m \<in> set bs" "m_magic (mcbs st m) = MAGIC_USED"
    and st1: "st1 = st\<lparr>mcbs := (mcbs st)(m := (mcbs st m)\<lparr>m_magic := MAGIC_FREE\<rparr>)\<rparr>"
    and st2: "st2 = st1\<lparr>links := (links st1)(mcbAddr m := \<lparr>larger = 0, smaller = 0\<rparr>)\<rparr>"
  shows "mid_rep st2 bs fl m"
proof -
  from rep have h: "heap_ok st bs" and f: "free_ok st bs fl" and co: "coalesced st bs"
    by (auto simp: alloc_rep_def)
  have F: "\<And>c. m_size (mcbs st2 c) = m_size (mcbs st c)"
    "\<And>c. m_prev (mcbs st2 c) = m_prev (mcbs st c)"
    "\<And>c. m_magic (mcbs st2 c) = (if c = m then MAGIC_FREE else m_magic (mcbs st c))"
    "mcb st2 = mcb st" "endMem st2 = endMem st" "freelist st2 = freelist st"
    "\<And>c. c \<noteq> m \<Longrightarrow> links st2 (mcbAddr c) = links st (mcbAddr c)"
    by (simp_all add: st1 st2)
  from f have dl: "dlist (links st) 0 (freelist st) fl 0" and d: "distinct fl"
    and sf: "set fl = {b \<in> set bs. m_magic (mcbs st b) = MAGIC_FREE}"
    and so: "sorted_wrt (\<lambda>a b. m_size (mcbs st b) \<le> m_size (mcbs st a)) fl"
    by (auto simp: free_ok_def)
  from sf m have mfl: "m \<notin> set fl" by auto
  have H: "heap_ok st2 bs"
  proof -
    from h have c: "chain (mcbs st) (endMem st) 0 (mcb st) bs" by (simp add: heap_ok_def)
    have "chain (mcbs st2) (endMem st) 0 (mcb st) bs = chain (mcbs st) (endMem st) 0 (mcb st) bs"
      by (intro chain_cong) (simp add: F)
    with c h m show ?thesis by (auto simp: heap_ok_def F)
  qed
  have "dlist (links st2) 0 (freelist st) fl 0 = dlist (links st) 0 (freelist st) fl 0"
    using mfl by (intro dlist_cong F(7)) auto
  with dl have dl2: "dlist (links st2) 0 (freelist st2) fl 0" by (simp add: F)
  have s2: "set fl = {b \<in> set bs. m_magic (mcbs st2 b) = MAGIC_FREE \<and> b \<noteq> m}"
    using sf m by (auto simp: F)
  have so2: "sorted_wrt (\<lambda>a b. m_size (mcbs st2 b) \<le> m_size (mcbs st2 a)) fl"
    using so by (simp add: F)
  have co2: "\<forall>b\<in>set bs. m_magic (mcbs st2 b) = MAGIC_FREE \<longrightarrow> m_prev (mcbs st2 b) \<noteq> 0 \<longrightarrow>
         m_magic (mcbs st2 (m_prev (mcbs st2 b))) = MAGIC_FREE \<longrightarrow> b = m \<or> m_prev (mcbs st2 b) = m"
    using co by (auto simp: coalesced_def F split: if_splits)
  from H m dl2 d s2 so2 co2 show ?thesis by (simp add: mid_rep_def F)
qed

lemma memFree_prev_A:
  assumes mid: "mid_rep st bs fl m"
    and np: "m_prev (mcbs st m) = 0 \<or> m_magic (mcbs st (m_prev (mcbs st m))) \<noteq> MAGIC_FREE"
  shows "\<exists>st'. memFree_prev m st = Some (m, st') \<and> mcbs st' = mcbs st \<and> mcb st' = mcb st \<and>
           endMem st' = endMem st \<and> pre_rep st' bs (ins (\<lambda>b. m_size (mcbs st b)) m fl) m"
proof -
  note D = mid_repD[OF mid]
  note h = D(1) and mb = D(2) and mf = D(3) and dl = D(4) and d = D(5) and sf = D(6)
    and so = D(7) and co = D(8)
  from sf have mfl: "m \<notin> set fl" by auto
  from rep_sizes(3)[OF h mb] have m0: "m \<noteq> 0" by simp
  from insertFree_rep[OF dl d mfl m0] obtain st' where s: "insertFree m st = Some st'"
    "mcbs st' = mcbs st" "mcb st' = mcb st" "endMem st' = endMem st"
    and dl': "dlist (links st') 0 (freelist st') (ins (\<lambda>b. m_size (mcbs st b)) m fl) 0"
    by blast
  from np have np': "\<not> (m_prev (mcbs st m) \<noteq> 0 \<and>
      m_magic (mcbs st (m_prev (mcbs st m))) = MAGIC_FREE)" by auto
  have res: "memFree_prev m st = Some (m, st')"
    using np
  proof
    assume "m_prev (mcbs st m) = 0"
    with s(1) show ?thesis by (simp add: memFree_prev_def Let_def)
  next
    assume "m_magic (mcbs st (m_prev (mcbs st m))) \<noteq> MAGIC_FREE"
    with s(1) show ?thesis by (simp add: memFree_prev_def Let_def)
  qed
  have H: "heap_ok st' bs" using h s by (simp add: heap_ok_def)
  have Fr: "free_ok st' bs (ins (\<lambda>b. m_size (mcbs st b)) m fl)"
  proof -
    have "distinct (ins (\<lambda>b. m_size (mcbs st b)) m fl)" using d mfl by (rule distinct_ins)
    moreover have "set (ins (\<lambda>b. m_size (mcbs st b)) m fl) =
        {b \<in> set bs. m_magic (mcbs st b) = MAGIC_FREE}"
      unfolding set_ins sf using mb mf by auto
    moreover have "sorted_wrt (\<lambda>a b. m_size (mcbs st b) \<le> m_size (mcbs st a))
        (ins (\<lambda>b. m_size (mcbs st b)) m fl)"
      using so by (rule sorted_ins)
    ultimately show ?thesis using dl' s by (simp add: free_ok_def)
  qed
  have Co: "\<forall>b\<in>set bs. m_magic (mcbs st' b) = MAGIC_FREE \<longrightarrow> m_prev (mcbs st' b) \<noteq> 0 \<longrightarrow>
         m_magic (mcbs st' (m_prev (mcbs st' b))) = MAGIC_FREE \<longrightarrow> m_prev (mcbs st' b) = m"
    using co np by (auto simp: s)
  have np': "m_prev (mcbs st' m) = 0 \<or> m_magic (mcbs st' (m_prev (mcbs st' m))) \<noteq> MAGIC_FREE"
    using np by (simp add: s(2))
  have mf': "m_magic (mcbs st' m) = MAGIC_FREE" using mf by (simp add: s(2))
  have "pre_rep st' bs (ins (\<lambda>b. m_size (mcbs st b)) m fl) m"
    unfolding pre_rep_def using H Fr Co mb mf' np' by blast
  with res s show ?thesis by blast
qed

lemma memFree_prev_merge_pre:
  assumes "m_prev (mcbs st m) = p" "p \<noteq> 0" "m_magic (mcbs st p) = MAGIC_FREE" "p \<noteq> m"
    and "mcbNext st m = nx" "nx \<noteq> m" "nx \<noteq> p"
    and "to_int ((to_size_t (m_size (mcbs st p))
                  + (to_size_t (m_size (mcbs st m)) + 16) mod 2 ^ 64) mod 2 ^ 64) = s'"
  shows "\<exists>st3. memFree_prev m st =
             (case insertFree p (removeFree p st3) of None \<Rightarrow> None | Some st4 \<Rightarrow> Some (p, st4)) \<and>
           mcb st3 = mcb st \<and> endMem st3 = endMem st \<and> freelist st3 = freelist st \<and>
           links st3 = links st \<and>
           (\<forall>c. m_size (mcbs st3 c) = (if c = p then s' else m_size (mcbs st c))) \<and>
           (\<forall>c. m_magic (mcbs st3 c) = (if c = m then 0 else m_magic (mcbs st c))) \<and>
           (\<forall>c. m_prev (mcbs st3 c) = (if c = nx \<and> nx \<noteq> 0 then p else m_prev (mcbs st c)))"
proof -
  define st1 where "st1 = st\<lparr>mcbs := (mcbs st)(m := (mcbs st m)\<lparr>m_magic := 0\<rparr>)\<rparr>"
  define st2 where "st2 = st1\<lparr>mcbs := (mcbs st1)(p := (mcbs st1 p)\<lparr>m_size := s'\<rparr>)\<rparr>"
  define st3 where "st3 = (if nx \<noteq> 0
      then st2\<lparr>mcbs := (mcbs st2)(nx := (mcbs st2 nx)\<lparr>m_prev := p\<rparr>)\<rparr> else st2)"
  have p1: "m_prev (mcbs st1 m) = p" using assms(1) by (simp add: st1_def)
  have s1: "to_int ((to_size_t (m_size (mcbs st1 p))
                  + (to_size_t (m_size (mcbs st1 m)) + 16) mod 2 ^ 64) mod 2 ^ 64) = s'"
    using assms(4,8) by (simp add: st1_def)
  have n2: "mcbNext st2 m = nx"
    using assms(4,5) by (simp add: st2_def st1_def mcbNext_def)
  have p2: "m_prev (mcbs st2 m) = p" using assms(1,4) by (simp add: st2_def st1_def)
  have p3: "m_prev (mcbs st3 m) = p" using assms(1,4,6) by (simp add: st3_def st2_def st1_def)
  have c: "m_prev (mcbs st m) \<noteq> 0 \<and> m_magic (mcbs st (m_prev (mcbs st m))) = MAGIC_FREE"
    using assms(1,2,3) by simp
  have "memFree_prev m st =
      (case insertFree p (removeFree p st3) of None \<Rightarrow> None | Some st4 \<Rightarrow> Some (p, st4))"
    unfolding memFree_prev_def Let_def if_P[OF c]
    unfolding st1_def[symmetric] p1 s1
    unfolding st2_def[symmetric] n2 p2
    unfolding st3_def[symmetric] p3 ..
  moreover have "mcb st3 = mcb st" "endMem st3 = endMem st" "freelist st3 = freelist st"
    "links st3 = links st"
    by (simp_all add: st3_def st2_def st1_def)
  moreover have "\<And>c. m_size (mcbs st3 c) = (if c = p then s' else m_size (mcbs st c))"
    using assms(4,7) by (simp add: st3_def st2_def st1_def)
  moreover have "\<And>c. m_magic (mcbs st3 c) = (if c = m then 0 else m_magic (mcbs st c))"
    using assms(4,6) by (simp add: st3_def st2_def st1_def)
  moreover have "\<And>c. m_prev (mcbs st3 c) = (if c = nx \<and> nx \<noteq> 0 then p else m_prev (mcbs st c))"
    by (simp add: st3_def st2_def st1_def)
  ultimately show ?thesis by blast
qed

lemma memFree_next_merge_pre:
  assumes "mcbNext st x = nx" "nx \<noteq> 0" "m_magic (mcbs st nx) = MAGIC_FREE" "nx \<noteq> x"
    and "mcbNext st nx = nn" "nn \<noteq> x" "nn \<noteq> nx"
    and "to_int ((to_size_t (m_size (mcbs st x))
                  + (16 + to_size_t (m_size (mcbs st nx))) mod 2 ^ 64) mod 2 ^ 64) = s'"
  shows "\<exists>st4. memFree_next x st = insertFree x (removeFree x st4) \<and>
           mcb st4 = mcb st \<and> endMem st4 = endMem st \<and>
           freelist st4 = freelist (removeFree nx st) \<and> links st4 = links (removeFree nx st) \<and>
           (\<forall>c. m_size (mcbs st4 c) = (if c = x then s' else m_size (mcbs st c))) \<and>
           (\<forall>c. m_magic (mcbs st4 c) = (if c = nx then 0 else m_magic (mcbs st c))) \<and>
           (\<forall>c. m_prev (mcbs st4 c) = (if c = nn \<and> nn \<noteq> 0 then x else m_prev (mcbs st c)))"
proof -
  define st1 where "st1 = removeFree nx st"
  define st2 where "st2 = st1\<lparr>mcbs := (mcbs st1)(nx := (mcbs st1 nx)\<lparr>m_magic := 0\<rparr>)\<rparr>"
  define st3 where "st3 = st2\<lparr>mcbs := (mcbs st2)(x := (mcbs st2 x)\<lparr>m_size := s'\<rparr>)\<rparr>"
  define st4 where "st4 = (if nn \<noteq> 0
      then st3\<lparr>mcbs := (mcbs st3)(nn := (mcbs st3 nn)\<lparr>m_prev := x\<rparr>)\<rparr> else st3)"
  have s2: "to_int ((to_size_t (m_size (mcbs st2 x))
                  + (16 + to_size_t (m_size (mcbs st2 nx))) mod 2 ^ 64) mod 2 ^ 64) = s'"
    using assms(4,8) by (simp add: st2_def st1_def)
  have n3: "mcbNext st3 nx = nn"
    using assms(4,5) by (simp add: st3_def st2_def st1_def mcbNext_def)
  have c: "mcbNext st x \<noteq> 0 \<and> m_magic (mcbs st (mcbNext st x)) = MAGIC_FREE"
    using assms(1,2,3) by simp
  have "memFree_next x st = insertFree x (removeFree x st4)"
    unfolding memFree_next_def Let_def if_P[OF c]
    unfolding assms(1) st1_def[symmetric]
    unfolding st2_def[symmetric] s2
    unfolding st3_def[symmetric] n3
    unfolding st4_def[symmetric] ..
  moreover have "mcb st4 = mcb st" "endMem st4 = endMem st"
    "freelist st4 = freelist (removeFree nx st)" "links st4 = links (removeFree nx st)"
    by (simp_all add: st4_def st3_def st2_def st1_def)
  moreover have "\<And>c. m_size (mcbs st4 c) = (if c = x then s' else m_size (mcbs st c))"
    by (simp add: st4_def st3_def st2_def st1_def)
  moreover have "\<And>c. m_magic (mcbs st4 c) = (if c = nx then 0 else m_magic (mcbs st c))"
    using assms(4,7) by (simp add: st4_def st3_def st2_def st1_def)
  moreover have "\<And>c. m_prev (mcbs st4 c) = (if c = nn \<and> nn \<noteq> 0 then x else m_prev (mcbs st c))"
    by (simp add: st4_def st3_def st2_def st1_def)
  ultimately show ?thesis by blast
qed

text \<open>Re-inserting a block whose size has grown: only that block's size has changed.\<close>

lemma reinsert_rep:
  assumes dl: "dlist (links st) 0 (freelist st) fl 0" and d: "distinct fl" and x: "x \<in> set fl"
    and so: "sorted_wrt (\<lambda>a b. sz b \<le> sz a) fl"
    and sz: "\<And>b. b \<in> set fl \<Longrightarrow> b \<noteq> x \<Longrightarrow> m_size (mcbs st b) = sz b"
  shows "\<exists>st'. insertFree x (removeFree x st) = Some st' \<and> mcbs st' = mcbs st \<and>
           mcb st' = mcb st \<and> endMem st' = endMem st \<and>
           dlist (links st') 0 (freelist st') (ins (\<lambda>b. m_size (mcbs st b)) x (remove1 x fl)) 0 \<and>
           distinct (ins (\<lambda>b. m_size (mcbs st b)) x (remove1 x fl)) \<and>
           set (ins (\<lambda>b. m_size (mcbs st b)) x (remove1 x fl)) = set fl \<and>
           sorted_wrt (\<lambda>a b. m_size (mcbs st b) \<le> m_size (mcbs st a))
             (ins (\<lambda>b. m_size (mcbs st b)) x (remove1 x fl))"
proof -
  let ?r = "removeFree x st"
  let ?fl = "remove1 x fl"
  from dlist_nonzero[OF dl] x have x0: "x \<noteq> 0" by metis
  have dr: "dlist (links ?r) 0 (freelist ?r) ?fl 0" using dl d x by (rule removeFree_rep)
  have d2: "distinct ?fl" using d by simp
  have xr: "x \<notin> set ?fl" using d by simp
  from insertFree_rep[OF dr d2 xr x0] obtain st' where s: "insertFree x ?r = Some st'"
    "mcbs st' = mcbs ?r" "mcb st' = mcb ?r" "endMem st' = endMem ?r"
    and dl': "dlist (links st') 0 (freelist st') (ins (\<lambda>b. m_size (mcbs ?r b)) x ?fl) 0"
    by blast
  have "sorted_wrt (\<lambda>a b. sz b \<le> sz a) ?fl" using so by (rule sorted_wrt_remove1)
  moreover have "sorted_wrt (\<lambda>a b. m_size (mcbs st b) \<le> m_size (mcbs st a)) ?fl =
      sorted_wrt (\<lambda>a b. sz b \<le> sz a) ?fl"
    using sz d by (intro sorted_wrt_cong_set) auto
  ultimately have "sorted_wrt (\<lambda>a b. m_size (mcbs st b) \<le> m_size (mcbs st a)) ?fl" by simp
  then have so': "sorted_wrt (\<lambda>a b. m_size (mcbs st b) \<le> m_size (mcbs st a))
             (ins (\<lambda>b. m_size (mcbs st b)) x ?fl)"
    by (rule sorted_ins)
  have "set (ins (\<lambda>b. m_size (mcbs st b)) x ?fl) = set fl"
    using x d by (auto simp: set_ins)
  moreover have "distinct (ins (\<lambda>b. m_size (mcbs st b)) x ?fl)" using d2 xr by (rule distinct_ins)
  ultimately show ?thesis using s dl' so' by simp
qed

lemma memFree_prev_B:
  assumes mid: "mid_rep st bs fl m" and bs: "bs = pre @ p # m # post"
    and pf: "m_magic (mcbs st p) = MAGIC_FREE"
  shows "\<exists>st'. memFree_prev m st = Some (p, st') \<and> mcb st' = mcb st \<and> endMem st' = endMem st \<and>
           (\<forall>c. m_size (mcbs st' c) =
              (if c = p then m_size (mcbs st p) + m_size (mcbs st m) + 16 else m_size (mcbs st c))) \<and>
           (\<forall>c. m_magic (mcbs st' c) = (if c = m then 0 else m_magic (mcbs st c))) \<and>
           (\<forall>c. m_prev (mcbs st' c) =
              (if c = hd0 post \<and> post \<noteq> [] then p else m_prev (mcbs st c))) \<and>
           pre_rep st' (pre @ p # post) (ins (\<lambda>b. m_size (mcbs st' b)) p (remove1 p fl)) p"
proof -
  let ?h = "mcbs st"
  note D = mid_repD[OF mid]
  note h = D(1) and mb = D(2) and mf = D(3) and dl = D(4) and d = D(5) and sf = D(6)
    and so = D(7) and co = D(8)
  note H = heap_okD[OF h]
  note c = H(4)
  define nx where "nx = hd0 post"
  define s' where "s' = m_size (?h p) + m_size (?h m) + 16"
  from chain_distinct[OF c] bs have dis: "p \<notin> set pre" "m \<notin> set pre" "p \<noteq> m"
    "p \<notin> set post" "m \<notin> set post" "distinct post" "set pre \<inter> set post = {}" "distinct pre"
    by auto
  have pb: "p \<in> set bs" using bs by simp
  note ps = rep_sizes[OF h pb] and ms = rep_sizes[OF h mb]
  have c2: "chain ?h (endMem st) 0 (mcb st) ((pre @ [p]) @ m # post)" using c bs by simp
  from chain_mid(1)[OF c2] have pm: "m_prev (?h m) = p" by simp
  have nxt: "mcbNext st m = nx" unfolding nx_def by (rule mcbNext_chain[OF c2])
  from chain_mid(5)[OF c[unfolded bs]] have mp: "m = p + 16 + m_size (?h p)" by simp
  have bound: "m_size (?h p) + m_size (?h m) + 16 < 2 ^ 31"
    using mp ms(5) ps(4) H(2) by simp
  have sz: "to_int ((to_size_t (m_size (?h p)) + (to_size_t (m_size (?h m)) + 16) mod 2 ^ 64)
      mod 2 ^ 64) = s'"
    unfolding s'_def using ps(1) ms(1) bound by (intro size_add) auto
  have nx_mem: "nx = 0 \<or> nx \<in> set post" unfolding nx_def by (rule hd0_mem)
  have post_pos: "0 \<notin> set post" using rep_sizes(3)[OF h] bs by fastforce
  have nx0: "(nx = 0) = (post = [])" unfolding nx_def using post_pos by (rule hd0_zero)
  have nx_hd: "post \<noteq> [] \<Longrightarrow> hd post = nx" unfolding nx_def by (cases post) auto
  have nxm: "nx \<noteq> m" using nx_mem dis ms(3) by auto
  have nxp: "nx \<noteq> p" using nx_mem dis ps(3) by auto
  have p0: "p \<noteq> 0" using ps(3) by simp
  from memFree_prev_merge_pre[OF pm p0 pf dis(3) nxt nxm nxp sz]
  obtain st3 where r3: "memFree_prev m st =
             (case insertFree p (removeFree p st3) of None \<Rightarrow> None | Some st4 \<Rightarrow> Some (p, st4))"
    and e3: "mcb st3 = mcb st" "endMem st3 = endMem st" "freelist st3 = freelist st"
      "links st3 = links st"
    and Z3: "\<And>c. m_size (mcbs st3 c) = (if c = p then s' else m_size (?h c))"
    and G3: "\<And>c. m_magic (mcbs st3 c) = (if c = m then 0 else m_magic (?h c))"
    and P3: "\<And>c. m_prev (mcbs st3 c) = (if c = nx \<and> nx \<noteq> 0 then p else m_prev (?h c))"
    by blast
  have pfl: "p \<in> set fl" unfolding sf using pb pf dis(3) by simp
  have dl3: "dlist (links st3) 0 (freelist st3) fl 0" using dl e3 by simp
  have sz3: "\<And>b. b \<in> set fl \<Longrightarrow> b \<noteq> p \<Longrightarrow> m_size (mcbs st3 b) = m_size (?h b)"
    by (simp add: Z3)
  from reinsert_rep[OF dl3 d pfl so sz3] obtain st' where s': "insertFree p (removeFree p st3) = Some st'"
    "mcbs st' = mcbs st3" "mcb st' = mcb st3" "endMem st' = endMem st3"
    and dl': "dlist (links st') 0 (freelist st') (ins (\<lambda>b. m_size (mcbs st3 b)) p (remove1 p fl)) 0"
    and d': "distinct (ins (\<lambda>b. m_size (mcbs st3 b)) p (remove1 p fl))"
    and set': "set (ins (\<lambda>b. m_size (mcbs st3 b)) p (remove1 p fl)) = set fl"
    and so': "sorted_wrt (\<lambda>a b. m_size (mcbs st3 b) \<le> m_size (mcbs st3 a))
             (ins (\<lambda>b. m_size (mcbs st3 b)) p (remove1 p fl))"
    by blast
  define fl' where "fl' = ins (\<lambda>b. m_size (mcbs st3 b)) p (remove1 p fl)"
  define bs' where "bs' = pre @ p # post"
  have res: "memFree_prev m st = Some (p, st')" using r3 s'(1) by simp
  have sb: "set bs' = set bs - {m}" using bs dis by (auto simp: bs'_def)
  have HO: "heap_ok st' bs'"
  proof -
    have "chain (mcbs st3) (endMem st) 0 (mcb st) (pre @ p # post)"
    proof (rule chain_merge[OF c[unfolded bs]])
      fix c assume cp: "c \<in> set pre"
      with dis nx_mem have "c \<noteq> p" "c \<noteq> nx \<or> nx = 0" by auto
      then show "m_prev (mcbs st3 c) = m_prev (?h c) \<and> m_size (mcbs st3 c) = m_size (?h c)"
        by (auto simp: Z3 P3)
    next
      show "m_prev (mcbs st3 p) = m_prev (?h p)" using nxp by (simp add: P3)
      show "m_size (mcbs st3 p) = m_size (?h p) + 16 + m_size (?h m)" by (simp add: Z3 s'_def)
    next
      fix c assume "c \<in> set post"
      with dis have "c \<noteq> p" by auto
      then show "m_size (mcbs st3 c) = m_size (?h c)" by (simp add: Z3)
    next
      fix c assume cp: "c \<in> set (tl post)"
      then have ne: "post \<noteq> []" by auto
      from cp dis(6) have "c \<noteq> hd post" by (cases post) auto
      with nx_hd[OF ne] have "c \<noteq> nx" by simp
      then show "m_prev (mcbs st3 c) = m_prev (?h c)" by (simp add: P3)
    next
      assume ne: "post \<noteq> []"
      with nx0 have "nx \<noteq> 0" by simp
      then show "m_prev (mcbs st3 (hd post)) = p" unfolding nx_hd[OF ne] by (simp add: P3)
    qed
    moreover have "\<forall>b\<in>set bs'. m_magic (mcbs st3 b) = MAGIC_USED \<or> m_magic (mcbs st3 b) = MAGIC_FREE"
      using H(5) sb by (simp add: G3)
    moreover have "\<forall>a. m_magic (mcbs st3 a) = MAGIC_USED \<longrightarrow> a \<in> set bs'"
      using H(6) sb mf by (auto simp: G3 split: if_splits)
    ultimately show ?thesis using H(1,2) s' e3 by (simp add: heap_ok_def bs'_def)
  qed
  have FO: "free_ok st' bs' fl'"
  proof -
    have "set fl' = {b \<in> set bs'. m_magic (mcbs st3 b) = MAGIC_FREE}"
      unfolding fl'_def set' sf sb by (auto simp: G3)
    with dl' d' so' s' show ?thesis by (simp add: free_ok_def fl'_def)
  qed
  have pp: "m_prev (?h p) = 0 \<or> m_magic (?h (m_prev (?h p))) \<noteq> MAGIC_FREE"
  proof -
    from chain_mid(1)[OF c[unfolded bs]] have "m_prev (?h p) = last (0 # pre)" .
    with last0_mem[of pre] dis have "m_prev (?h p) \<noteq> m" using ms(3) by auto
    with co pb pf dis(3) show ?thesis by blast
  qed
  have pm': "m_prev (?h p) \<noteq> m"
  proof -
    from chain_mid(1)[OF c[unfolded bs]] have "m_prev (?h p) = last (0 # pre)" .
    with last0_mem[of pre] dis show ?thesis using ms(3) by auto
  qed
  have pp': "m_prev (mcbs st' p) = 0 \<or> m_magic (mcbs st' (m_prev (mcbs st' p))) \<noteq> MAGIC_FREE"
    using pp pm' nxp by (auto simp: s' P3 G3)
  have pf': "m_magic (mcbs st' p) = MAGIC_FREE" using pf dis(3) by (simp add: s' G3)
  have CO: "\<forall>b\<in>set bs'. m_magic (mcbs st' b) = MAGIC_FREE \<longrightarrow> m_prev (mcbs st' b) \<noteq> 0 \<longrightarrow>
         m_magic (mcbs st' (m_prev (mcbs st' b))) = MAGIC_FREE \<longrightarrow> m_prev (mcbs st' b) = p"
  proof (intro ballI impI)
    fix b assume b: "b \<in> set bs'" and bf: "m_magic (mcbs st' b) = MAGIC_FREE"
      and b0: "m_prev (mcbs st' b) \<noteq> 0" and bpf: "m_magic (mcbs st' (m_prev (mcbs st' b))) = MAGIC_FREE"
    from b sb have bb: "b \<in> set bs" and bm: "b \<noteq> m" by auto
    show "m_prev (mcbs st' b) = p"
    proof (cases "b = nx \<and> nx \<noteq> 0")
      case True
      then show ?thesis by (simp add: s' P3)
    next
      case False
      then have pb': "m_prev (mcbs st' b) = m_prev (?h b)" by (auto simp: s' P3)
      from bf bm have bf': "m_magic (?h b) = MAGIC_FREE" by (simp add: s' G3)
      from bpf pb' have "m_prev (?h b) \<noteq> m \<and> m_magic (?h (m_prev (?h b))) = MAGIC_FREE"
        by (auto simp: s' G3 split: if_splits)
      with co bb bf' b0 pb' bm show ?thesis by auto
    qed
  qed
  have PR: "pre_rep st' bs' fl' p"
    unfolding pre_rep_def using HO FO CO pp' pf' by (auto simp: bs'_def)
  have ic: "ins (\<lambda>b. m_size (mcbs st' b)) p (remove1 p fl) = fl'"
    unfolding fl'_def by (simp add: s')
  have P': "\<And>c. m_prev (mcbs st' c) = (if c = hd0 post \<and> post \<noteq> [] then p else m_prev (?h c))"
    using nx0 by (auto simp: s' P3 nx_def)
  have Z': "\<And>c. m_size (mcbs st' c) =
      (if c = p then m_size (?h p) + m_size (?h m) + 16 else m_size (?h c))"
    by (simp add: s' Z3 s'_def)
  have G': "\<And>c. m_magic (mcbs st' c) = (if c = m then 0 else m_magic (?h c))"
    by (simp add: s' G3)
  have E: "mcb st' = mcb st" "endMem st' = endMem st" using s' e3 by simp_all
  have PR': "pre_rep st' (pre @ p # post) (ins (\<lambda>b. m_size (mcbs st' b)) p (remove1 p fl)) p"
    using PR unfolding ic bs'_def .
  from res E Z' G' P' PR' show ?thesis by blast
qed

lemma memFree_next_C:
  assumes pr: "pre_rep st bs fl x" and bs: "bs = pre @ x # post"
    and nf: "post = [] \<or> m_magic (mcbs st (hd post)) \<noteq> MAGIC_FREE"
  shows "memFree_next x st = Some st \<and> alloc_rep st bs fl"
proof -
  let ?h = "mcbs st"
  note D = pre_repD[OF pr]
  note h = D(1) and f = D(2) and xb = D(3) and xf = D(4) and xp = D(5) and co = D(6)
  note H = heap_okD[OF h]
  note c = H(4)
  have nxt: "mcbNext st x = hd0 post" using c bs by (intro mcbNext_chain[of st 0 "mcb st" pre]) simp
  have res: "memFree_next x st = Some st"
  proof (cases post)
    case Nil
    with nxt show ?thesis by (simp add: memFree_next_def)
  next
    case (Cons y ys)
    with nf nxt show ?thesis by (simp add: memFree_next_def)
  qed
  have p0: "0 \<notin> set bs" using rep_sizes(3)[OF h] by fastforce
  have "coalesced st bs"
    unfolding coalesced_def
  proof (intro ballI impI)
    fix b assume b: "b \<in> set bs" and bf: "m_magic (?h b) = MAGIC_FREE" and b0: "m_prev (?h b) \<noteq> 0"
    show "m_magic (?h (m_prev (?h b))) \<noteq> MAGIC_FREE"
    proof
      assume pf: "m_magic (?h (m_prev (?h b))) = MAGIC_FREE"
      with co b bf b0 have px: "m_prev (?h b) = x" by blast
      from chain_succ[OF c[unfolded bs] b[unfolded bs] px] p0 bs
      have "post \<noteq> [] \<and> b = hd post" by simp
      with nf bf show False by auto
    qed
  qed
  with h f res show ?thesis by (simp add: alloc_rep_def)
qed

lemma memFree_next_D:
  assumes pr: "pre_rep st bs fl x" and bs: "bs = pre @ x # nx # post"
    and nf: "m_magic (mcbs st nx) = MAGIC_FREE"
  shows "\<exists>st'. memFree_next x st = Some st' \<and> mcb st' = mcb st \<and> endMem st' = endMem st \<and>
           (\<forall>c. m_size (mcbs st' c) =
              (if c = x then m_size (mcbs st x) + m_size (mcbs st nx) + 16 else m_size (mcbs st c))) \<and>
           (\<forall>c. m_magic (mcbs st' c) = (if c = nx then 0 else m_magic (mcbs st c))) \<and>
           (\<forall>c. m_prev (mcbs st' c) =
              (if c = hd0 post \<and> post \<noteq> [] then x else m_prev (mcbs st c))) \<and>
           alloc_rep st' (pre @ x # post)
             (ins (\<lambda>b. m_size (mcbs st' b)) x (remove1 x (remove1 nx fl)))"
proof -
  let ?h = "mcbs st"
  note D = pre_repD[OF pr]
  note h = D(1) and f = D(2) and xb = D(3) and xf = D(4) and xp = D(5) and co = D(6)
  note H = heap_okD[OF h]
  note c = H(4)
  note F = free_okD[OF f]
  note dl = F(1) and d = F(2) and sf = F(3) and so = F(4)
  define nn where "nn = hd0 post"
  define s' where "s' = m_size (?h x) + m_size (?h nx) + 16"
  from chain_distinct[OF c] bs have dis: "x \<notin> set pre" "nx \<notin> set pre" "x \<noteq> nx"
    "x \<notin> set post" "nx \<notin> set post" "distinct post" "set pre \<inter> set post = {}" "distinct pre"
    by auto
  have nb: "nx \<in> set bs" using bs by simp
  note xs = rep_sizes[OF h xb] and ns = rep_sizes[OF h nb]
  have c2: "chain ?h (endMem st) 0 (mcb st) ((pre @ [x]) @ nx # post)" using c bs by simp
  have nxt: "mcbNext st x = nx" using mcbNext_chain[OF c[unfolded bs]] by simp
  have nnt: "mcbNext st nx = nn" unfolding nn_def by (rule mcbNext_chain[OF c2])
  from chain_mid(5)[OF c[unfolded bs]] have np: "nx = x + 16 + m_size (?h x)" by simp
  have bound: "m_size (?h x) + m_size (?h nx) + 16 < 2 ^ 31"
    using np ns(5) xs(4) H(2) by simp
  have sz: "to_int ((to_size_t (m_size (?h x)) + (16 + to_size_t (m_size (?h nx))) mod 2 ^ 64)
      mod 2 ^ 64) = s'"
    unfolding s'_def using xs(1) ns(1) bound by (intro size_add') auto
  have nn_mem: "nn = 0 \<or> nn \<in> set post" unfolding nn_def by (rule hd0_mem)
  have post_pos: "0 \<notin> set post" using rep_sizes(3)[OF h] bs by fastforce
  have nn0: "(nn = 0) = (post = [])" unfolding nn_def using post_pos by (rule hd0_zero)
  have nn_hd: "post \<noteq> [] \<Longrightarrow> hd post = nn" unfolding nn_def by (cases post) auto
  have nnx: "nn \<noteq> x" using nn_mem dis xs(3) by auto
  have nnn: "nn \<noteq> nx" using nn_mem dis ns(3) by auto
  have n0: "nx \<noteq> 0" using ns(3) by simp
  from memFree_next_merge_pre[OF nxt n0 nf dis(3)[symmetric] nnt nnx nnn sz]
  obtain st4 where r4: "memFree_next x st = insertFree x (removeFree x st4)"
    and e4: "mcb st4 = mcb st" "endMem st4 = endMem st"
      "freelist st4 = freelist (removeFree nx st)" "links st4 = links (removeFree nx st)"
    and Z4: "\<And>c. m_size (mcbs st4 c) = (if c = x then s' else m_size (?h c))"
    and G4: "\<And>c. m_magic (mcbs st4 c) = (if c = nx then 0 else m_magic (?h c))"
    and P4: "\<And>c. m_prev (mcbs st4 c) = (if c = nn \<and> nn \<noteq> 0 then x else m_prev (?h c))"
    by blast
  have nfl: "nx \<in> set fl" unfolding sf using nb nf by simp
  have xfl: "x \<in> set fl" unfolding sf using xb xf by simp
  have dl4: "dlist (links st4) 0 (freelist st4) (remove1 nx fl) 0"
    using removeFree_rep[OF dl d nfl] e4 by simp
  have d4: "distinct (remove1 nx fl)" using d by simp
  have x4: "x \<in> set (remove1 nx fl)" using xfl dis(3) by simp
  have so4: "sorted_wrt (\<lambda>a b. m_size (?h b) \<le> m_size (?h a)) (remove1 nx fl)"
    using so by (rule sorted_wrt_remove1)
  have sz4: "\<And>b. b \<in> set (remove1 nx fl) \<Longrightarrow> b \<noteq> x \<Longrightarrow> m_size (mcbs st4 b) = m_size (?h b)"
    by (simp add: Z4)
  from reinsert_rep[OF dl4 d4 x4 so4 sz4]
  obtain st' where s': "insertFree x (removeFree x st4) = Some st'"
    "mcbs st' = mcbs st4" "mcb st' = mcb st4" "endMem st' = endMem st4"
    and dl': "dlist (links st') 0 (freelist st')
        (ins (\<lambda>b. m_size (mcbs st4 b)) x (remove1 x (remove1 nx fl))) 0"
    and d': "distinct (ins (\<lambda>b. m_size (mcbs st4 b)) x (remove1 x (remove1 nx fl)))"
    and set': "set (ins (\<lambda>b. m_size (mcbs st4 b)) x (remove1 x (remove1 nx fl))) =
        set (remove1 nx fl)"
    and so': "sorted_wrt (\<lambda>a b. m_size (mcbs st4 b) \<le> m_size (mcbs st4 a))
             (ins (\<lambda>b. m_size (mcbs st4 b)) x (remove1 x (remove1 nx fl)))"
    by blast
  define fl' where "fl' = ins (\<lambda>b. m_size (mcbs st4 b)) x (remove1 x (remove1 nx fl))"
  define bs' where "bs' = pre @ x # post"
  have res: "memFree_next x st = Some st'" using r4 s'(1) by simp
  have sb: "set bs' = set bs - {nx}" using bs dis by (auto simp: bs'_def)
  have srm: "set (remove1 nx fl) = set fl - {nx}" using d by simp
  have HO: "heap_ok st' bs'"
  proof -
    have "chain (mcbs st4) (endMem st) 0 (mcb st) (pre @ x # post)"
    proof (rule chain_merge[OF c[unfolded bs]])
      fix c assume cp: "c \<in> set pre"
      with dis nn_mem have "c \<noteq> x" "c \<noteq> nn \<or> nn = 0" by auto
      then show "m_prev (mcbs st4 c) = m_prev (?h c) \<and> m_size (mcbs st4 c) = m_size (?h c)"
        by (auto simp: Z4 P4)
    next
      show "m_prev (mcbs st4 x) = m_prev (?h x)" using nnx by (simp add: P4)
      show "m_size (mcbs st4 x) = m_size (?h x) + 16 + m_size (?h nx)" by (simp add: Z4 s'_def)
    next
      fix c assume "c \<in> set post"
      with dis have "c \<noteq> x" by auto
      then show "m_size (mcbs st4 c) = m_size (?h c)" by (simp add: Z4)
    next
      fix c assume cp: "c \<in> set (tl post)"
      then have ne: "post \<noteq> []" by auto
      from cp dis(6) have "c \<noteq> hd post" by (cases post) auto
      with nn_hd[OF ne] have "c \<noteq> nn" by simp
      then show "m_prev (mcbs st4 c) = m_prev (?h c)" by (simp add: P4)
    next
      assume ne: "post \<noteq> []"
      with nn0 have "nn \<noteq> 0" by simp
      then show "m_prev (mcbs st4 (hd post)) = x" unfolding nn_hd[OF ne] by (simp add: P4)
    qed
    moreover have "\<forall>b\<in>set bs'. m_magic (mcbs st4 b) = MAGIC_USED \<or> m_magic (mcbs st4 b) = MAGIC_FREE"
      using H(5) sb by (simp add: G4)
    moreover have "\<forall>a. m_magic (mcbs st4 a) = MAGIC_USED \<longrightarrow> a \<in> set bs'"
      using H(6) sb nf by (auto simp: G4 split: if_splits)
    ultimately show ?thesis using H(1,2) s' e4 by (simp add: heap_ok_def bs'_def)
  qed
  have FO: "free_ok st' bs' fl'"
  proof -
    have "set fl' = {b \<in> set bs'. m_magic (mcbs st4 b) = MAGIC_FREE}"
      unfolding fl'_def set' srm sf sb by (auto simp: G4)
    with dl' d' so' s' show ?thesis by (simp add: free_ok_def fl'_def)
  qed
  have p0: "0 \<notin> set bs" using rep_sizes(3)[OF h] by fastforce
  have CO: "coalesced st' bs'"
    unfolding coalesced_def
  proof (intro ballI impI)
    fix b assume b: "b \<in> set bs'" and bf: "m_magic (mcbs st' b) = MAGIC_FREE"
      and b0: "m_prev (mcbs st' b) \<noteq> 0"
    from b sb have bb: "b \<in> set bs" and bn: "b \<noteq> nx" by auto
    from bf bn have bf': "m_magic (?h b) = MAGIC_FREE" by (simp add: s' G4)
    show "m_magic (mcbs st' (m_prev (mcbs st' b))) \<noteq> MAGIC_FREE"
    proof (cases "b = nn \<and> nn \<noteq> 0")
      case True
      with nn0 nn_hd have ne: "post \<noteq> []" and hb: "hd post = b" by auto
      from chain_mid(5)[OF c2] ne hb have "m_prev (?h b) = nx" by auto
      with co bb bf' nf n0 dis(3) show ?thesis by auto
    next
      case False
      then have pb': "m_prev (mcbs st' b) = m_prev (?h b)" by (auto simp: s' P4)
      show ?thesis
      proof
        assume a: "m_magic (mcbs st' (m_prev (mcbs st' b))) = MAGIC_FREE"
        then have "m_prev (?h b) \<noteq> nx \<and> m_magic (?h (m_prev (?h b))) = MAGIC_FREE"
          unfolding pb' by (auto simp: s' G4 split: if_splits)
        with co bb bf' b0 pb' have px: "m_prev (?h b) = x" by auto
        from chain_succ[OF c[unfolded bs] bb[unfolded bs] px] p0 bs have "b = nx" by simp
        with bn show False by simp
      qed
    qed
  qed
  have AR: "alloc_rep st' bs' fl'" using HO FO CO by (simp add: alloc_rep_def)
  have ic: "ins (\<lambda>b. m_size (mcbs st' b)) x (remove1 x (remove1 nx fl)) = fl'"
    unfolding fl'_def by (simp add: s')
  have AR': "alloc_rep st' (pre @ x # post)
      (ins (\<lambda>b. m_size (mcbs st' b)) x (remove1 x (remove1 nx fl)))"
    using AR unfolding ic bs'_def .
  have P': "\<And>c. m_prev (mcbs st' c) = (if c = hd0 post \<and> post \<noteq> [] then x else m_prev (?h c))"
    using nn0 by (auto simp: s' P4 nn_def)
  have Z': "\<And>c. m_size (mcbs st' c) =
      (if c = x then m_size (?h x) + m_size (?h nx) + 16 else m_size (?h c))"
    by (simp add: s' Z4 s'_def)
  have G': "\<And>c. m_magic (mcbs st' c) = (if c = nx then 0 else m_magic (?h c))"
    by (simp add: s' G4)
  have E: "mcb st' = mcb st" "endMem st' = endMem st" using s' e4 by simp_all
  from res E Z' G' P' AR' show ?thesis by blast
qed

lemma memFree_unfold:
  assumes m: "0 < m" "m_magic (mcbs st m) = MAGIC_USED"
  shows "memFree (m + 16) st =
     (case memFree_prev m
        (st\<lparr>mcbs := (mcbs st)(m := (mcbs st m)\<lparr>m_magic := MAGIC_FREE\<rparr>),
            links := (links st)(mcbAddr m := \<lparr>larger = 0, smaller = 0\<rparr>)\<rparr>) of
        None \<Rightarrow> None
      | Some (m', st3) \<Rightarrow> memFree_next m' st3)"
  using m by (simp add: memFree_def Let_def)

lemma memFree_A:
  assumes rep: "alloc_rep st bs fl" and bs: "bs = pre @ m # post"
    and mu: "m_magic (mcbs st m) = MAGIC_USED"
    and np: "pre = [] \<or> m_magic (mcbs st (last pre)) \<noteq> MAGIC_FREE"
  shows "\<exists>st3. memFree (m + 16) st = memFree_next m st3 \<and> mcb st3 = mcb st \<and>
           endMem st3 = endMem st \<and>
           (\<forall>c. m_size (mcbs st3 c) = m_size (mcbs st c)) \<and>
           (\<forall>c. m_prev (mcbs st3 c) = m_prev (mcbs st c)) \<and>
           (\<forall>c. m_magic (mcbs st3 c) = (if c = m then MAGIC_FREE else m_magic (mcbs st c))) \<and>
           pre_rep st3 bs (ins (\<lambda>b. m_size (mcbs st b)) m fl) m"
proof -
  define st2 where "st2 = st\<lparr>mcbs := (mcbs st)(m := (mcbs st m)\<lparr>m_magic := MAGIC_FREE\<rparr>),
            links := (links st)(mcbAddr m := \<lparr>larger = 0, smaller = 0\<rparr>)\<rparr>"
  have h: "heap_ok st bs" using rep by (simp add: alloc_rep_def)
  have mb: "m \<in> set bs" using bs by simp
  have m0: "0 < m" using rep_sizes(3)[OF h mb] .
  have mid: "mid_rep st2 bs fl m"
    by (rule mark_free[OF rep mb mu refl]) (simp add: st2_def)
  have c: "chain (mcbs st) (endMem st) 0 (mcb st) (pre @ m # post)"
    using heap_okD(4)[OF h] bs by simp
  have pm: "m_prev (mcbs st m) = last (0 # pre)" using chain_mid(1)[OF c] .
  have dis: "m \<notin> set pre" using chain_distinct[OF c] by simp
  have f2: "\<And>c. m_size (mcbs st2 c) = m_size (mcbs st c)"
    "\<And>c. m_prev (mcbs st2 c) = m_prev (mcbs st c)"
    "\<And>c. m_magic (mcbs st2 c) = (if c = m then MAGIC_FREE else m_magic (mcbs st c))"
    "mcb st2 = mcb st" "endMem st2 = endMem st"
    by (simp_all add: st2_def)
  have np2: "m_prev (mcbs st2 m) = 0 \<or> m_magic (mcbs st2 (m_prev (mcbs st2 m))) \<noteq> MAGIC_FREE"
  proof (cases "pre = []")
    case True
    then show ?thesis using pm by (simp add: f2)
  next
    case False
    then have "last pre \<in> set pre" by simp
    with dis have "last pre \<noteq> m" by auto
    with np False pm show ?thesis by (simp add: f2)
  qed
  from memFree_prev_A[OF mid np2]
  obtain st3 where s3: "memFree_prev m st2 = Some (m, st3)" "mcbs st3 = mcbs st2"
    "mcb st3 = mcb st2" "endMem st3 = endMem st2"
    "pre_rep st3 bs (ins (\<lambda>b. m_size (mcbs st2 b)) m fl) m"
    by blast
  have ic: "ins (\<lambda>b. m_size (mcbs st2 b)) m fl = ins (\<lambda>b. m_size (mcbs st b)) m fl"
    by (simp add: f2)
  have res: "memFree (m + 16) st = memFree_next m st3"
    unfolding memFree_unfold[OF m0 mu] st2_def[symmetric] s3(1) by simp
  have PR: "pre_rep st3 bs (ins (\<lambda>b. m_size (mcbs st b)) m fl) m" using s3(5) unfolding ic .
  have Z: "\<And>c. m_size (mcbs st3 c) = m_size (mcbs st c)" by (simp add: s3 f2)
  have P: "\<And>c. m_prev (mcbs st3 c) = m_prev (mcbs st c)" by (simp add: s3 f2)
  have G: "\<And>c. m_magic (mcbs st3 c) = (if c = m then MAGIC_FREE else m_magic (mcbs st c))"
    by (simp add: s3 f2)
  have E: "mcb st3 = mcb st" "endMem st3 = endMem st" by (simp_all add: s3 f2)
  from res E Z P G PR show ?thesis by blast
qed

lemma memFree_B:
  assumes rep: "alloc_rep st bs fl" and bs: "bs = pre @ p # m # post"
    and mu: "m_magic (mcbs st m) = MAGIC_USED"
    and pf: "m_magic (mcbs st p) = MAGIC_FREE"
  shows "\<exists>st3. memFree (m + 16) st = memFree_next p st3 \<and> mcb st3 = mcb st \<and>
           endMem st3 = endMem st \<and>
           (\<forall>c. m_size (mcbs st3 c) =
              (if c = p then m_size (mcbs st p) + m_size (mcbs st m) + 16 else m_size (mcbs st c))) \<and>
           (\<forall>c. m_prev (mcbs st3 c) =
              (if c = hd0 post \<and> post \<noteq> [] then p else m_prev (mcbs st c))) \<and>
           (\<forall>c. m_magic (mcbs st3 c) = (if c = m then 0 else m_magic (mcbs st c))) \<and>
           pre_rep st3 (pre @ p # post) (ins (\<lambda>b. m_size (mcbs st3 b)) p (remove1 p fl)) p"
proof -
  define st2 where "st2 = st\<lparr>mcbs := (mcbs st)(m := (mcbs st m)\<lparr>m_magic := MAGIC_FREE\<rparr>),
            links := (links st)(mcbAddr m := \<lparr>larger = 0, smaller = 0\<rparr>)\<rparr>"
  have h: "heap_ok st bs" using rep by (simp add: alloc_rep_def)
  have mb: "m \<in> set bs" using bs by simp
  have m0: "0 < m" using rep_sizes(3)[OF h mb] .
  have mid: "mid_rep st2 bs fl m"
    by (rule mark_free[OF rep mb mu refl]) (simp add: st2_def)
  have pm: "p \<noteq> m" using pf mu by auto
  have f2: "\<And>c. m_size (mcbs st2 c) = m_size (mcbs st c)"
    "\<And>c. m_prev (mcbs st2 c) = m_prev (mcbs st c)"
    "\<And>c. m_magic (mcbs st2 c) = (if c = m then MAGIC_FREE else m_magic (mcbs st c))"
    "mcb st2 = mcb st" "endMem st2 = endMem st"
    by (simp_all add: st2_def)
  have pf2: "m_magic (mcbs st2 p) = MAGIC_FREE" using pf pm by (simp add: f2)
  from memFree_prev_B[OF mid bs pf2]
  obtain st3 where s3: "memFree_prev m st2 = Some (p, st3)" "mcb st3 = mcb st2"
    "endMem st3 = endMem st2"
    and Z3: "\<And>c. m_size (mcbs st3 c) =
       (if c = p then m_size (mcbs st2 p) + m_size (mcbs st2 m) + 16 else m_size (mcbs st2 c))"
    and G3: "\<And>c. m_magic (mcbs st3 c) = (if c = m then 0 else m_magic (mcbs st2 c))"
    and P3: "\<And>c. m_prev (mcbs st3 c) =
       (if c = hd0 post \<and> post \<noteq> [] then p else m_prev (mcbs st2 c))"
    and PR: "pre_rep st3 (pre @ p # post) (ins (\<lambda>b. m_size (mcbs st3 b)) p (remove1 p fl)) p"
    by blast
  have res: "memFree (m + 16) st = memFree_next p st3"
    unfolding memFree_unfold[OF m0 mu] st2_def[symmetric] s3(1) by simp
  have Z: "\<And>c. m_size (mcbs st3 c) =
      (if c = p then m_size (mcbs st p) + m_size (mcbs st m) + 16 else m_size (mcbs st c))"
    by (simp add: Z3 f2)
  have P: "\<And>c. m_prev (mcbs st3 c) =
      (if c = hd0 post \<and> post \<noteq> [] then p else m_prev (mcbs st c))"
    by (simp add: P3 f2)
  have G: "\<And>c. m_magic (mcbs st3 c) = (if c = m then 0 else m_magic (mcbs st c))"
    by (simp add: G3 f2)
  have E: "mcb st3 = mcb st" "endMem st3 = endMem st" by (simp_all add: s3 f2)
  from res E Z P G PR show ?thesis by blast
qed

lemma remove1_ins: "m \<notin> set fl \<Longrightarrow> remove1 m (ins sz m fl) = fl"
proof -
  assume m: "m \<notin> set fl"
  obtain pre post where s: "fl = pre @ post" "ins sz m fl = pre @ m # post"
    by (rule ins_split[of fl sz m]) blast
  from m s(1) have "m \<notin> set pre" by simp
  then have "remove1 m (pre @ m # post) = pre @ post" by (simp add: remove1_append)
  then show ?thesis using s by simp
qed

lemma coalesced_neighbours:
  assumes rep: "alloc_rep st bs fl" and bs: "bs = pre @ m # post"
    and mf: "m_magic (mcbs st m) = MAGIC_FREE"
  shows "pre = [] \<or> m_magic (mcbs st (last pre)) \<noteq> MAGIC_FREE"
    "post = [] \<or> m_magic (mcbs st (hd post)) \<noteq> MAGIC_FREE"
proof -
  have h: "heap_ok st bs" and co: "coalesced st bs" using rep by (simp_all add: alloc_rep_def)
  have c: "chain (mcbs st) (endMem st) 0 (mcb st) (pre @ m # post)"
    using heap_okD(4)[OF h] bs by simp
  have pos: "\<And>b. b \<in> set bs \<Longrightarrow> b \<noteq> 0" using rep_sizes(3)[OF h] by fastforce
  show "pre = [] \<or> m_magic (mcbs st (last pre)) \<noteq> MAGIC_FREE"
  proof (cases "pre = []")
    case False
    then have lp: "last pre \<in> set bs" using bs by simp
    have pm: "m_prev (mcbs st m) = last pre" using chain_mid(1)[OF c] False by simp
    have "m \<in> set bs" using bs by simp
    with co mf pm pos[OF lp] show ?thesis unfolding coalesced_def by metis
  qed simp
  show "post = [] \<or> m_magic (mcbs st (hd post)) \<noteq> MAGIC_FREE"
  proof (cases "post = []")
    case False
    then have hp: "hd post \<in> set bs" using bs by simp
    have pm: "m_prev (mcbs st (hd post)) = m" using chain_mid(5)[OF c False] by blast
    have "m \<in> set bs" using bs by simp
    from pos[OF this] co mf pm hp show ?thesis unfolding coalesced_def by metis
  qed simp
qed

lemma memFree_AC:
  assumes rep: "alloc_rep st bs fl" and bs: "bs = pre @ m # post"
    and mu: "m_magic (mcbs st m) = MAGIC_USED"
    and np: "pre = [] \<or> m_magic (mcbs st (last pre)) \<noteq> MAGIC_FREE"
    and nn: "post = [] \<or> m_magic (mcbs st (hd post)) \<noteq> MAGIC_FREE"
  shows "\<exists>st'. memFree (m + 16) st = Some st' \<and> mcb st' = mcb st \<and> endMem st' = endMem st \<and>
           (\<forall>c. m_size (mcbs st' c) = m_size (mcbs st c)) \<and>
           (\<forall>c. m_prev (mcbs st' c) = m_prev (mcbs st c)) \<and>
           (\<forall>c. m_magic (mcbs st' c) = (if c = m then MAGIC_FREE else m_magic (mcbs st c))) \<and>
           alloc_rep st' bs (ins (\<lambda>b. m_size (mcbs st b)) m fl)"
proof -
  from memFree_A[OF rep bs mu np]
  obtain st3 where r: "memFree (m + 16) st = memFree_next m st3"
    and E: "mcb st3 = mcb st" "endMem st3 = endMem st"
    and Z: "\<And>c. m_size (mcbs st3 c) = m_size (mcbs st c)"
    and P: "\<And>c. m_prev (mcbs st3 c) = m_prev (mcbs st c)"
    and G: "\<And>c. m_magic (mcbs st3 c) = (if c = m then MAGIC_FREE else m_magic (mcbs st c))"
    and PR: "pre_rep st3 bs (ins (\<lambda>b. m_size (mcbs st b)) m fl) m"
    by blast
  have h: "heap_ok st bs" using rep by (simp add: alloc_rep_def)
  have "distinct bs" using chain_distinct[OF heap_okD(4)[OF h]] .
  then have "post \<noteq> [] \<Longrightarrow> hd post \<noteq> m" unfolding bs by (cases post) auto
  with nn have nn3: "post = [] \<or> m_magic (mcbs st3 (hd post)) \<noteq> MAGIC_FREE"
    by (auto simp: G)
  from memFree_next_C[OF PR bs nn3] r
  have "memFree (m + 16) st = Some st3" "alloc_rep st3 bs (ins (\<lambda>b. m_size (mcbs st b)) m fl)"
    by simp_all
  with E Z P G show ?thesis by blast
qed

lemma memFree_AD:
  assumes rep: "alloc_rep st bs fl" and bs: "bs = pre @ m # nx # post"
    and mu: "m_magic (mcbs st m) = MAGIC_USED"
    and np: "pre = [] \<or> m_magic (mcbs st (last pre)) \<noteq> MAGIC_FREE"
    and nf: "m_magic (mcbs st nx) = MAGIC_FREE"
  shows "\<exists>st'. memFree (m + 16) st = Some st' \<and> mcb st' = mcb st \<and> endMem st' = endMem st \<and>
           (\<forall>c. m_size (mcbs st' c) =
              (if c = m then m_size (mcbs st m) + m_size (mcbs st nx) + 16 else m_size (mcbs st c))) \<and>
           (\<forall>c. m_prev (mcbs st' c) =
              (if c = hd0 post \<and> post \<noteq> [] then m else m_prev (mcbs st c))) \<and>
           (\<forall>c. m_magic (mcbs st' c) =
              (if c = m then MAGIC_FREE else if c = nx then 0 else m_magic (mcbs st c))) \<and>
           alloc_rep st' (pre @ m # post) (ins (\<lambda>b. m_size (mcbs st' b)) m (remove1 nx fl))"
proof -
  from memFree_A[OF rep bs mu np]
  obtain st3 where r: "memFree (m + 16) st = memFree_next m st3"
    and E: "mcb st3 = mcb st" "endMem st3 = endMem st"
    and Z: "\<And>c. m_size (mcbs st3 c) = m_size (mcbs st c)"
    and P: "\<And>c. m_prev (mcbs st3 c) = m_prev (mcbs st c)"
    and G: "\<And>c. m_magic (mcbs st3 c) = (if c = m then MAGIC_FREE else m_magic (mcbs st c))"
    and PR: "pre_rep st3 bs (ins (\<lambda>b. m_size (mcbs st b)) m fl) m"
    by blast
  have mn: "m \<noteq> nx" using mu nf by auto
  have nf3: "m_magic (mcbs st3 nx) = MAGIC_FREE" using nf mn by (simp add: G)
  have f: "free_ok st bs fl" using rep by (simp add: alloc_rep_def)
  have mfl: "m \<notin> set fl" unfolding free_okD(3)[OF f] using mu by simp
  define fl1 where "fl1 = ins (\<lambda>b. m_size (mcbs st b)) m fl"
  have rm: "remove1 m (remove1 nx fl1) = remove1 nx fl"
    unfolding fl1_def by (subst remove1_commute) (simp add: remove1_ins[OF mfl])
  from memFree_next_D[OF PR bs nf3]
  obtain st' where r': "memFree_next m st3 = Some st'"
    and E': "mcb st' = mcb st3" "endMem st' = endMem st3"
    and Z': "\<And>c. m_size (mcbs st' c) =
       (if c = m then m_size (mcbs st3 m) + m_size (mcbs st3 nx) + 16 else m_size (mcbs st3 c))"
    and G': "\<And>c. m_magic (mcbs st' c) = (if c = nx then 0 else m_magic (mcbs st3 c))"
    and P': "\<And>c. m_prev (mcbs st' c) =
       (if c = hd0 post \<and> post \<noteq> [] then m else m_prev (mcbs st3 c))"
    and AR: "alloc_rep st' (pre @ m # post)
       (ins (\<lambda>b. m_size (mcbs st' b)) m (remove1 m (remove1 nx fl1)))"
    unfolding fl1_def by blast
  have AR2: "alloc_rep st' (pre @ m # post) (ins (\<lambda>b. m_size (mcbs st' b)) m (remove1 nx fl))"
    using AR unfolding rm .
  have res: "memFree (m + 16) st = Some st'" using r r' by simp
  have E2: "mcb st' = mcb st" "endMem st' = endMem st" using E E' by simp_all
  have Z2: "\<And>c. m_size (mcbs st' c) =
      (if c = m then m_size (mcbs st m) + m_size (mcbs st nx) + 16 else m_size (mcbs st c))"
    by (simp add: Z' Z)
  have P2: "\<And>c. m_prev (mcbs st' c) =
      (if c = hd0 post \<and> post \<noteq> [] then m else m_prev (mcbs st c))"
    by (simp add: P' P)
  have G2: "\<And>c. m_magic (mcbs st' c) =
      (if c = m then MAGIC_FREE else if c = nx then 0 else m_magic (mcbs st c))"
    using mn by (simp add: G' G)
  from res E2 Z2 P2 G2 AR2 show ?thesis by blast
qed

lemma memFree_next_rep:
  assumes pr: "pre_rep st bs fl x"
  shows "\<exists>st' bs' fl'. memFree_next x st = Some st' \<and> alloc_rep st' bs' fl' \<and>
           mcb st' = mcb st \<and> endMem st' = endMem st \<and> set bs' \<subseteq> set bs \<and>
           (\<forall>a. (m_magic (mcbs st' a) = MAGIC_USED) = (m_magic (mcbs st a) = MAGIC_USED))"
proof -
  from pre_repD(3)[OF pr] obtain pre post where bs: "bs = pre @ x # post"
    by (auto dest: split_list)
  show ?thesis
  proof (cases "post = [] \<or> m_magic (mcbs st (hd post)) \<noteq> MAGIC_FREE")
    case True
    from memFree_next_C[OF pr bs True] show ?thesis by blast
  next
    case False
    then obtain nx post' where p: "post = nx # post'" and nf: "m_magic (mcbs st nx) = MAGIC_FREE"
      by (cases post) auto
    have bs': "bs = pre @ x # nx # post'" using bs p by simp
    from memFree_next_D[OF pr bs' nf]
    obtain st' where r: "memFree_next x st = Some st'" "mcb st' = mcb st" "endMem st' = endMem st"
      and G: "\<And>c. m_magic (mcbs st' c) = (if c = nx then 0 else m_magic (mcbs st c))"
      and AR: "alloc_rep st' (pre @ x # post')
         (ins (\<lambda>b. m_size (mcbs st' b)) x (remove1 x (remove1 nx fl)))"
      by blast
    have U: "\<forall>a. (m_magic (mcbs st' a) = MAGIC_USED) = (m_magic (mcbs st a) = MAGIC_USED)"
      using nf by (simp add: G)
    have S: "set (pre @ x # post') \<subseteq> set bs" unfolding bs' by auto
    from r AR U S show ?thesis by blast
  qed
qed

lemma memFree_rep:
  assumes rep: "alloc_rep st bs fl"
  shows "\<exists>st' bs' fl'. memFree addr st = Some st' \<and> alloc_rep st' bs' fl' \<and>
           mcb st' = mcb st \<and> endMem st' = endMem st \<and> set bs' \<subseteq> set bs \<and>
           (\<forall>a. (m_magic (mcbs st' a) = MAGIC_USED) =
                (m_magic (mcbs st a) = MAGIC_USED \<and> a \<noteq> addr - 16))"
proof -
  have h: "heap_ok st bs" using rep by (simp add: alloc_rep_def)
  show ?thesis
  proof (cases "m_magic (mcbs st (addr - 16)) = MAGIC_USED")
    case False
    then have "memFree addr st = Some st" by (simp add: memFree_def)
    moreover have "\<forall>a. (m_magic (mcbs st a) = MAGIC_USED) =
        (m_magic (mcbs st a) = MAGIC_USED \<and> a \<noteq> addr - 16)"
      using False by auto
    ultimately show ?thesis using rep by blast
  next
    case True
    define m where "m = addr - 16"
    have mu: "m_magic (mcbs st m) = MAGIC_USED" using True by (simp add: m_def)
    have am: "addr = m + 16" by (simp add: m_def)
    have mb: "m \<in> set bs" using heap_okD(6)[OF h] mu by blast
    then obtain pre post where bs: "bs = pre @ m # post" by (auto dest: split_list)
    have "\<exists>st3 bs3 fl3 x. memFree (m + 16) st = memFree_next x st3 \<and> pre_rep st3 bs3 fl3 x \<and>
        mcb st3 = mcb st \<and> endMem st3 = endMem st \<and> set bs3 \<subseteq> set bs \<and>
        (\<forall>a. (m_magic (mcbs st3 a) = MAGIC_USED) = (m_magic (mcbs st a) = MAGIC_USED \<and> a \<noteq> m))"
    proof (cases "pre = [] \<or> m_magic (mcbs st (last pre)) \<noteq> MAGIC_FREE")
      case True
      from memFree_A[OF rep bs mu True]
      obtain st3 where r: "memFree (m + 16) st = memFree_next m st3"
        "mcb st3 = mcb st" "endMem st3 = endMem st"
        and G: "\<And>c. m_magic (mcbs st3 c) = (if c = m then MAGIC_FREE else m_magic (mcbs st c))"
        and PR: "pre_rep st3 bs (ins (\<lambda>b. m_size (mcbs st b)) m fl) m"
        by blast
      have U: "\<forall>a. (m_magic (mcbs st3 a) = MAGIC_USED) =
          (m_magic (mcbs st a) = MAGIC_USED \<and> a \<noteq> m)"
        by (simp add: G)
      from r PR U show ?thesis by blast
    next
      case False
      then have ne: "pre \<noteq> []" and pf: "m_magic (mcbs st (last pre)) = MAGIC_FREE" by auto
      define p where "p = last pre"
      define pre' where "pre' = butlast pre"
      have bs': "bs = pre' @ p # m # post" using bs ne by (simp add: p_def pre'_def)
      have pf': "m_magic (mcbs st p) = MAGIC_FREE" using pf by (simp add: p_def)
      from memFree_B[OF rep bs' mu pf']
      obtain st3 where r: "memFree (m + 16) st = memFree_next p st3"
        "mcb st3 = mcb st" "endMem st3 = endMem st"
        and G: "\<And>c. m_magic (mcbs st3 c) = (if c = m then 0 else m_magic (mcbs st c))"
        and PR: "pre_rep st3 (pre' @ p # post)
           (ins (\<lambda>b. m_size (mcbs st3 b)) p (remove1 p fl)) p"
        by blast
      have U: "\<forall>a. (m_magic (mcbs st3 a) = MAGIC_USED) =
          (m_magic (mcbs st a) = MAGIC_USED \<and> a \<noteq> m)"
        by (simp add: G)
      have S: "set (pre' @ p # post) \<subseteq> set bs" unfolding bs' by auto
      from r PR U S show ?thesis by blast
    qed
    then obtain st3 bs3 fl3 x where r: "memFree (m + 16) st = memFree_next x st3"
      and PR: "pre_rep st3 bs3 fl3 x"
      and E: "mcb st3 = mcb st" "endMem st3 = endMem st" and S: "set bs3 \<subseteq> set bs"
      and U: "\<forall>a. (m_magic (mcbs st3 a) = MAGIC_USED) =
          (m_magic (mcbs st a) = MAGIC_USED \<and> a \<noteq> m)"
      by blast
    from memFree_next_rep[OF PR]
    obtain st' bs' fl' where r': "memFree_next x st3 = Some st'" and AR: "alloc_rep st' bs' fl'"
      and E': "mcb st' = mcb st3" "endMem st' = endMem st3" and S': "set bs' \<subseteq> set bs3"
      and U': "\<forall>a. (m_magic (mcbs st' a) = MAGIC_USED) = (m_magic (mcbs st3 a) = MAGIC_USED)"
      by blast
    have res: "memFree addr st = Some st'" using r r' am by simp
    have E2: "mcb st' = mcb st" "endMem st' = endMem st" using E E' by simp_all
    have S2: "set bs' \<subseteq> set bs" using S S' by blast
    have U2: "\<forall>a. (m_magic (mcbs st' a) = MAGIC_USED) =
        (m_magic (mcbs st a) = MAGIC_USED \<and> a \<noteq> addr - 16)"
      using U U' by (simp add: m_def)
    from res AR E2 S2 U2 show ?thesis by blast
  qed
qed

lemma memAlloc_fail:
  "freelist st = 0 \<or> m_size (mcbs st (freelist st)) < alloc_size n \<Longrightarrow> memAlloc n st = Some (0, st)"
  by (auto simp: memAlloc_def Let_def)

lemma memAlloc_rep:
  assumes rep: "alloc_rep st bs fl" and n: "0 \<le> n" "n \<le> 2147483644"
  shows "\<exists>p st' bs' fl'. memAlloc n st = Some (p, st') \<and> alloc_rep st' bs' fl' \<and>
           mcb st' = mcb st \<and> endMem st' = endMem st \<and>
           (p = 0) = (freelist st = 0 \<or> m_size (mcbs st (freelist st)) < alloc_size n) \<and>
           (p = 0 \<longrightarrow> st' = st) \<and>
           (p \<noteq> 0 \<longrightarrow> p = freelist st + 16 \<and> m_magic (mcbs st (p - 16)) = MAGIC_FREE \<and>
              alloc_size n \<le> m_size (mcbs st' (p - 16)) \<and>
              (\<forall>a. (m_magic (mcbs st' a) = MAGIC_USED) =
                   (m_magic (mcbs st a) = MAGIC_USED \<or> a = p - 16)))"
proof (cases "freelist st = 0 \<or> m_size (mcbs st (freelist st)) < alloc_size n")
  case True
  from memAlloc_fail[OF True] True rep show ?thesis by blast
next
  case False
  define m where "m = freelist st"
  define sz where "sz = alloc_size n"
  have ok: "freelist st \<noteq> 0" "sz \<le> m_size (mcbs st (freelist st))" using False by (auto simp: sz_def)
  have s16: "16 \<le> sz" using alloc_size_bounds(1)[OF n] by (simp add: sz_def)
  have h: "heap_ok st bs" using rep by (simp add: alloc_rep_def)
  note hd = rep_head[OF rep ok(1)]
  have m0: "0 < m" using rep_sizes(3)[OF h hd(2)] by (simp add: m_def)
  have "\<exists>st' bs' fl'. memAlloc n st = Some (mcbAddr m, st') \<and> alloc_rep st' bs' fl' \<and>
      mcb st' = mcb st \<and> endMem st' = endMem st \<and> sz \<le> m_size (mcbs st' m) \<and>
      (\<forall>c. m_magic (mcbs st' c) = MAGIC_USED \<longleftrightarrow> m_magic (mcbs st c) = MAGIC_USED \<or> c = m)"
  proof (cases "m_size (mcbs st (freelist st)) - sz \<le> 32")
    case True
    from memAlloc_rep_whole[OF rep refl s16[unfolded sz_def] ok[unfolded sz_def] True[unfolded sz_def]]
    obtain st' where r: "memAlloc n st = Some (mcbAddr (freelist st), st')"
      "alloc_rep st' bs (tl fl)" "mcb st' = mcb st" "endMem st' = endMem st"
      and Z: "\<And>c. m_size (mcbs st' c) = m_size (mcbs st c)"
      and G: "\<And>c. m_magic (mcbs st' c) =
          (if c = freelist st then MAGIC_USED else m_magic (mcbs st c))"
      by blast
    have a: "sz \<le> m_size (mcbs st' m)" using ok by (simp add: Z m_def)
    have b: "\<forall>c. m_magic (mcbs st' c) = MAGIC_USED \<longleftrightarrow> m_magic (mcbs st c) = MAGIC_USED \<or> c = m"
      by (simp add: G m_def)
    from r a b show ?thesis unfolding m_def by blast
  next
    case False
    then have bal: "32 < m_size (mcbs st (freelist st)) - alloc_size n" by (simp add: sz_def)
    from hd(2) obtain pre post where bs: "bs = pre @ freelist st # post" by (auto dest: split_list)
    from memAlloc_rep_split[OF rep refl s16[unfolded sz_def] ok[unfolded sz_def] bal bs refl]
    obtain st' where r: "memAlloc n st = Some (mcbAddr (freelist st), st')"
      "alloc_rep st' (pre @ freelist st # (freelist st + 16 + alloc_size n) # post)
         (ins (\<lambda>b. m_size (mcbs st' b)) (freelist st + 16 + alloc_size n) (tl fl))"
      "mcb st' = mcb st" "endMem st' = endMem st"
      and nb: "freelist st + 16 + alloc_size n \<notin> set bs"
      and Z: "\<And>c. m_size (mcbs st' c) =
              (if c = freelist st then alloc_size n
               else if c = freelist st + 16 + alloc_size n
                    then m_size (mcbs st (freelist st)) - alloc_size n - 16
               else m_size (mcbs st c))"
      and G: "\<And>c. m_magic (mcbs st' c) =
              (if c = freelist st then MAGIC_USED
               else if c = freelist st + 16 + alloc_size n then MAGIC_FREE
               else m_magic (mcbs st c))"
      by blast
    have a: "sz \<le> m_size (mcbs st' m)" by (simp add: Z m_def sz_def)
    have nu: "m_magic (mcbs st (freelist st + 16 + alloc_size n)) \<noteq> MAGIC_USED"
      using heap_okD(6)[OF h] nb by blast
    have b: "\<forall>c. m_magic (mcbs st' c) = MAGIC_USED \<longleftrightarrow> m_magic (mcbs st c) = MAGIC_USED \<or> c = m"
      using nu by (simp add: G m_def)
    from r a b show ?thesis unfolding m_def by blast
  qed
  then obtain st' bs' fl' where r: "memAlloc n st = Some (mcbAddr m, st')"
    "alloc_rep st' bs' fl'" "mcb st' = mcb st" "endMem st' = endMem st"
    and a: "sz \<le> m_size (mcbs st' m)"
    and b: "\<forall>c. m_magic (mcbs st' c) = MAGIC_USED \<longleftrightarrow> m_magic (mcbs st c) = MAGIC_USED \<or> c = m"
    by blast
  have p: "mcbAddr m \<noteq> 0" "mcbAddr m = freelist st + 16" "mcbAddr m - 16 = m"
    using m0 by (simp_all add: mcbAddr_def m_def)
  have mf: "m_magic (mcbs st m) = MAGIC_FREE" using hd(3) by (simp add: m_def)
  show ?thesis
    using r a b p mf False unfolding sz_def by (intro exI[of _ "mcbAddr m"] exI[of _ st'] exI[of _ bs'] exI[of _ fl']) simp
qed

lemma ins_Nil [simp]: "ins sz m [] = [m]"
  by (simp add: ins_def)

lemma memInit_rep:
  assumes a: "0 < addr" and s: "32 \<le> size0" "size0 < 2 ^ 31"
    and u: "\<forall>a. a \<noteq> addr \<longrightarrow> m_magic (mcbs st a) \<noteq> MAGIC_USED"
  shows "\<exists>st'. memInit addr size0 st = Some st' \<and> alloc_rep st' [addr] [addr] \<and>
           mcb st' = addr \<and> endMem st' = addr + size0 \<and> freelist st' = addr \<and>
           m_size (mcbs st' addr) = size0 - 16 \<and> m_magic (mcbs st' addr) = MAGIC_FREE \<and>
           (\<forall>a. m_magic (mcbs st' a) \<noteq> MAGIC_USED)"
proof -
  define st2 where "st2 = st\<lparr>mcbs := (mcbs st)(addr :=
        \<lparr>m_prev = 0, m_magic = MAGIC_FREE, m_size = size0 - 16\<rparr>),
      mcb := addr, endMem := addr + size0, freelist := 0\<rparr>"
  have sz: "to_int ((to_size_t size0 - 16) mod 2 ^ 64) = size0 - 16"
    using s by (intro size_sub) auto
  have mi: "memInit addr size0 st = insertFree addr st2"
    unfolding memInit_def Let_def sz st2_def by simp
  have dl: "dlist (links st2) 0 (freelist st2) [] 0" by (simp add: st2_def)
  from insertFree_rep[OF dl, of addr] a
  obtain st' where r: "insertFree addr st2 = Some st'" "mcbs st' = mcbs st2" "mcb st' = mcb st2"
    "endMem st' = endMem st2" and dl': "dlist (links st') 0 (freelist st') [addr] 0"
    by auto
  have f: "freelist st' = addr" using dlist_hd0[OF dl'] by simp
  have h: "mcbs st' addr = \<lparr>m_prev = 0, m_magic = MAGIC_FREE, m_size = size0 - 16\<rparr>"
    "mcb st' = addr" "endMem st' = addr + size0"
    by (simp_all add: r st2_def)
  have nu: "\<forall>a. m_magic (mcbs st' a) \<noteq> MAGIC_USED" using u by (simp add: r st2_def)
  have "heap_ok st' [addr]" using a s nu by (simp add: heap_ok_def h)
  moreover have "free_ok st' [addr] [addr]"
  proof -
    have "m_magic (mcbs st' addr) = MAGIC_FREE" by (simp add: h)
    then have "{addr} = {b. b = addr \<and> m_magic (mcbs st' b) = MAGIC_FREE}" by auto
    with dl' show ?thesis by (simp add: free_ok_def)
  qed
  moreover have "coalesced st' [addr]" by (simp add: coalesced_def h)
  ultimately have "alloc_rep st' [addr] [addr]" by (simp add: alloc_rep_def)
  moreover have "memInit addr size0 st = Some st'" using mi r(1) by simp
  moreover have "m_size (mcbs st' addr) = size0 - 16" "m_magic (mcbs st' addr) = MAGIC_FREE"
    by (simp_all add: h)
  ultimately show ?thesis using f h(2,3) nu by blast
qed

lemma single_block:
  assumes rep: "alloc_rep st bs fl" and nu: "\<forall>a. m_magic (mcbs st a) \<noteq> MAGIC_USED"
  shows "bs = [mcb st]" "fl = [mcb st]" "freelist st = mcb st"
    "m_size (mcbs st (mcb st)) = endMem st - mcb st - 16"
    "m_magic (mcbs st (mcb st)) = MAGIC_FREE"
proof -
  have h: "heap_ok st bs" and f: "free_ok st bs fl" and co: "coalesced st bs"
    using rep by (simp_all add: alloc_rep_def)
  note H = heap_okD[OF h] and F = free_okD[OF f]
  have fr: "\<And>b. b \<in> set bs \<Longrightarrow> m_magic (mcbs st b) = MAGIC_FREE" using H(5) nu by blast
  from H(3) obtain b bs' where bs: "bs = b # bs'" by (cases bs) auto
  have c: "chain (mcbs st) (endMem st) 0 (mcb st) ([] @ b # bs')" using H(4) bs by simp
  have b: "b = mcb st" using H(4) bs by simp
  have b0: "b \<noteq> 0" using rep_sizes(3)[OF h, of b] bs by simp
  have e: "bs' = []"
  proof (rule ccontr)
    assume ne: "bs' \<noteq> []"
    from chain_mid(5)[OF c ne] have p: "m_prev (mcbs st (hd bs')) = b" by blast
    have m: "hd bs' \<in> set bs" "b \<in> set bs" using ne bs by simp_all
    from co m(1) fr[OF m(1)] fr[OF m(2)] p b0 show False unfolding coalesced_def by metis
  qed
  show 1: "bs = [mcb st]" using bs e b by simp
  have sf: "set fl = {mcb st}" unfolding F(3) 1 using fr[of "mcb st"] 1 by auto
  show 2: "fl = [mcb st]"
  proof (cases fl)
    case Nil
    with sf show ?thesis by simp
  next
    case (Cons x xs)
    with sf have x: "x = mcb st" and xs: "set xs \<subseteq> {mcb st}" by auto
    from F(2) Cons x have "mcb st \<notin> set xs" by simp
    with xs have "xs = []" by (cases xs) auto
    with Cons x show ?thesis by simp
  qed
  show "freelist st = mcb st" using dlist_hd0[OF F(1)] 2 by simp
  show "m_size (mcbs st (mcb st)) = endMem st - mcb st - 16"
    using chain_mid(4)[OF c e] b by simp
  show "m_magic (mcbs st (mcb st)) = MAGIC_FREE" using fr[of "mcb st"] 1 by simp
qed

lemma memAlloc_memFree_restores:
  assumes rep: "alloc_rep st bs fl" and n: "0 \<le> n" "n \<le> 2147483644"
    and al: "memAlloc n st = Some (p, st1)" and p0: "p \<noteq> 0"
  shows "\<exists>st2. memFree p st1 = Some st2 \<and> alloc_rep st2 bs fl \<and>
           mcb st2 = mcb st \<and> endMem st2 = endMem st \<and> freelist st2 = freelist st \<and>
           (\<forall>c\<in>set bs. m_size (mcbs st2 c) = m_size (mcbs st c) \<and>
                       m_prev (mcbs st2 c) = m_prev (mcbs st c) \<and>
                       m_magic (mcbs st2 c) = m_magic (mcbs st c))"
proof -
  define m where "m = freelist st"
  define sz where "sz = alloc_size n"
  have nf: "\<not> (freelist st = 0 \<or> m_size (mcbs st (freelist st)) < alloc_size n)"
    using memAlloc_fail[of st n] al p0 by auto
  then have ok: "freelist st \<noteq> 0" "alloc_size n \<le> m_size (mcbs st (freelist st))" by auto
  have s16: "16 \<le> alloc_size n" using alloc_size_bounds(1)[OF n] .
  have h: "heap_ok st bs" and f: "free_ok st bs fl" using rep by (simp_all add: alloc_rep_def)
  note hd = rep_head[OF rep ok(1)]
  from hd(1) obtain rest where fl: "fl = m # rest" unfolding m_def by blast
  have mb: "m \<in> set bs" and mf: "m_magic (mcbs st m) = MAGIC_FREE"
    using hd(2,3) by (simp_all add: m_def)
  from mb obtain pre post where bs: "bs = pre @ m # post" by (auto dest: split_list)
  note nb = coalesced_neighbours[OF rep bs mf]
  have c: "chain (mcbs st) (endMem st) 0 (mcb st) (pre @ m # post)"
    using heap_okD(4)[OF h] bs by simp
  have dis: "distinct bs" using chain_distinct[OF heap_okD(4)[OF h]] .
  have lp: "pre \<noteq> [] \<Longrightarrow> last pre \<noteq> m \<and> last pre \<in> set bs"
    using dis unfolding bs by (cases pre rule: rev_cases) auto
  have big: "\<And>b. b \<in> set rest \<Longrightarrow> m_size (mcbs st b) \<le> m_size (mcbs st m)"
    using hd(4) fl by (simp add: m_def)
  have rs: "set rest \<subseteq> set bs" "m \<notin> set rest"
    using free_okD(2,3)[OF f] fl by auto
  have pa: "p = m + 16" using memAlloc_nonnull[OF al p0] by (simp add: mcbAddr_def m_def)
  have fh: "freelist st = hd0 fl" using dlist_hd0[OF free_okD(1)[OF f]] .
  show ?thesis
  proof (cases "m_size (mcbs st (freelist st)) - alloc_size n \<le> 32")
    case True
    from memAlloc_rep_whole[OF rep refl s16 ok True] al
    have r1: "alloc_rep st1 bs (tl fl)" "mcb st1 = mcb st" "endMem st1 = endMem st"
      and Z1: "\<And>c. m_size (mcbs st1 c) = m_size (mcbs st c)"
      and P1: "\<And>c. m_prev (mcbs st1 c) = m_prev (mcbs st c)"
      and G1: "\<And>c. m_magic (mcbs st1 c) = (if c = m then MAGIC_USED else m_magic (mcbs st c))"
      unfolding m_def by auto
    have mu: "m_magic (mcbs st1 m) = MAGIC_USED" by (simp add: G1)
    have np: "pre = [] \<or> m_magic (mcbs st1 (last pre)) \<noteq> MAGIC_FREE"
      using nb(1) lp by (auto simp: G1)
    have nn: "post = [] \<or> m_magic (mcbs st1 (hd post)) \<noteq> MAGIC_FREE"
      using nb(2) by (auto simp: G1)
    have r1': "alloc_rep st1 bs rest" using r1(1) fl by simp
    from memFree_AC[OF r1' bs mu np nn]
    obtain st2 where r2: "memFree (m + 16) st1 = Some st2" "mcb st2 = mcb st1"
      "endMem st2 = endMem st1"
      and Z2: "\<And>c. m_size (mcbs st2 c) = m_size (mcbs st1 c)"
      and P2: "\<And>c. m_prev (mcbs st2 c) = m_prev (mcbs st1 c)"
      and G2: "\<And>c. m_magic (mcbs st2 c) = (if c = m then MAGIC_FREE else m_magic (mcbs st1 c))"
      and AR: "alloc_rep st2 bs (ins (\<lambda>b. m_size (mcbs st1 b)) m rest)"
      by blast
    have "ins (\<lambda>b. m_size (mcbs st1 b)) m rest = m # rest"
      by (rule ins_head) (simp add: Z1 big)
    then have AR': "alloc_rep st2 bs fl" using AR fl by simp
    have f2: "free_ok st2 bs fl" using AR' by (simp add: alloc_rep_def)
    have fh2: "freelist st2 = freelist st" using dlist_hd0[OF free_okD(1)[OF f2]] fh by simp
    have F: "\<forall>c\<in>set bs. m_size (mcbs st2 c) = m_size (mcbs st c) \<and>
                       m_prev (mcbs st2 c) = m_prev (mcbs st c) \<and>
                       m_magic (mcbs st2 c) = m_magic (mcbs st c)"
      using mf by (simp add: Z2 P2 G2 Z1 P1 G1)
    have E: "mcb st2 = mcb st" "endMem st2 = endMem st" using r1 r2 by simp_all
    from r2(1) AR' E fh2 F show ?thesis unfolding pa by blast
  next
    case False
    then have bal: "32 < m_size (mcbs st (freelist st)) - alloc_size n" by simp
    define nb where "nb = m + 16 + alloc_size n"
    have bs0: "bs = pre @ freelist st # post" using bs by (simp add: m_def)
    have nb0: "nb = freelist st + 16 + alloc_size n" by (simp add: nb_def m_def)
    from memAlloc_rep_split[OF rep refl s16 ok bal bs0 nb0] al
    have r1: "alloc_rep st1 (pre @ m # nb # post) (ins (\<lambda>b. m_size (mcbs st1 b)) nb (tl fl))"
      "mcb st1 = mcb st" "endMem st1 = endMem st" "nb \<notin> set bs"
      and Z1: "\<And>c. m_size (mcbs st1 c) =
              (if c = m then alloc_size n
               else if c = nb then m_size (mcbs st m) - alloc_size n - 16
               else m_size (mcbs st c))"
      and P1: "\<And>c. m_prev (mcbs st1 c) =
              (if c = nb then m
               else if c = hd0 post \<and> post \<noteq> [] then nb
               else m_prev (mcbs st c))"
      and G1: "\<And>c. m_magic (mcbs st1 c) =
              (if c = m then MAGIC_USED
               else if c = nb then MAGIC_FREE
               else m_magic (mcbs st c))"
      unfolding m_def by auto
    have mn: "m \<noteq> nb" using r1(4) mb by auto
    have mu: "m_magic (mcbs st1 m) = MAGIC_USED" by (simp add: G1)
    have nf1: "m_magic (mcbs st1 nb) = MAGIC_FREE" using mn by (simp add: G1)
    have np: "pre = [] \<or> m_magic (mcbs st1 (last pre)) \<noteq> MAGIC_FREE"
    proof (cases "pre = []")
      case False
      with lp r1(4) have "last pre \<noteq> m" "last pre \<noteq> nb" by auto
      with nb(1) False show ?thesis by (simp add: G1)
    qed simp
    define fl1 where "fl1 = ins (\<lambda>b. m_size (mcbs st1 b)) nb rest"
    have r1': "alloc_rep st1 (pre @ m # nb # post) fl1" using r1(1) fl by (simp add: fl1_def)
    from memFree_AD[OF r1' refl mu np nf1]
    obtain st2 where r2: "memFree (m + 16) st1 = Some st2" "mcb st2 = mcb st1"
      "endMem st2 = endMem st1"
      and Z2: "\<And>c. m_size (mcbs st2 c) =
         (if c = m then m_size (mcbs st1 m) + m_size (mcbs st1 nb) + 16 else m_size (mcbs st1 c))"
      and P2: "\<And>c. m_prev (mcbs st2 c) =
         (if c = hd0 post \<and> post \<noteq> [] then m else m_prev (mcbs st1 c))"
      and G2: "\<And>c. m_magic (mcbs st2 c) =
         (if c = m then MAGIC_FREE else if c = nb then 0 else m_magic (mcbs st1 c))"
      and AR: "alloc_rep st2 (pre @ m # post) (ins (\<lambda>b. m_size (mcbs st2 b)) m (remove1 nb fl1))"
      by blast
    have nr: "nb \<notin> set rest" using rs(1) r1(4) by auto
    have rm: "remove1 nb fl1 = rest" unfolding fl1_def by (rule remove1_ins[OF nr])
    have Zm: "m_size (mcbs st2 m) = m_size (mcbs st m)" using mn by (simp add: Z2 Z1)
    have Zr: "\<And>b. b \<in> set bs \<Longrightarrow> m_size (mcbs st2 b) = m_size (mcbs st b)"
    proof -
      fix b assume "b \<in> set bs"
      with r1(4) have "b \<noteq> nb" by auto
      then show "m_size (mcbs st2 b) = m_size (mcbs st b)" using mn by (simp add: Z2 Z1)
    qed
    have "ins (\<lambda>b. m_size (mcbs st2 b)) m rest = m # rest"
    proof (rule ins_head)
      fix b assume b: "b \<in> set rest"
      with rs(1) have "b \<in> set bs" by auto
      from Zr[OF this] big[OF b] Zm show "m_size (mcbs st2 b) \<le> m_size (mcbs st2 m)" by simp
    qed
    then have AR': "alloc_rep st2 bs fl" using AR rm fl bs by simp
    have f2: "free_ok st2 bs fl" using AR' by (simp add: alloc_rep_def)
    have fh2: "freelist st2 = freelist st" using dlist_hd0[OF free_okD(1)[OF f2]] fh by simp
    have Pr: "\<And>b. b \<in> set bs \<Longrightarrow> m_prev (mcbs st2 b) = m_prev (mcbs st b)"
    proof -
      fix b assume "b \<in> set bs"
      with r1(4) have bn: "b \<noteq> nb" by auto
      show "m_prev (mcbs st2 b) = m_prev (mcbs st b)"
      proof (cases "b = hd0 post \<and> post \<noteq> []")
        case True
        then have "post \<noteq> []" "hd post = b" by (cases post; simp)+
        with chain_mid(5)[OF c] have "m_prev (mcbs st b) = m" by blast
        with True show ?thesis by (simp add: P2)
      next
        case False
        then show ?thesis using bn by (auto simp: P2 P1)
      qed
    qed
    have Gr: "\<And>b. b \<in> set bs \<Longrightarrow> m_magic (mcbs st2 b) = m_magic (mcbs st b)"
    proof -
      fix b assume "b \<in> set bs"
      with r1(4) have bn: "b \<noteq> nb" by auto
      then show "m_magic (mcbs st2 b) = m_magic (mcbs st b)" using mf by (simp add: G2 G1)
    qed
    have F: "\<forall>c\<in>set bs. m_size (mcbs st2 c) = m_size (mcbs st c) \<and>
                       m_prev (mcbs st2 c) = m_prev (mcbs st c) \<and>
                       m_magic (mcbs st2 c) = m_magic (mcbs st c)"
      using Zr Pr Gr by blast
    have E: "mcb st2 = mcb st" "endMem st2 = endMem st" using r1 r2 by simp_all
    from r2(1) AR' E fh2 F show ?thesis unfolding pa by blast
  qed
qed

subsection \<open>The failure condition of \<open>memAlloc\<close>\<close>

lemma memAlloc_null_iff:
  assumes rep: "alloc_rep st bs fl"
  shows "(\<exists>st'. memAlloc n st = Some (0, st')) =
         (freelist st = 0 \<or> m_size (mcbs st (freelist st)) < alloc_size n)"
proof
  assume "\<exists>st'. memAlloc n st = Some (0, st')"
  then obtain st' where a: "memAlloc n st = Some (0, st')" by blast
  show "freelist st = 0 \<or> m_size (mcbs st (freelist st)) < alloc_size n"
  proof (rule ccontr)
    assume c: "\<not> ?thesis"
    then have f: "freelist st \<noteq> 0" by simp
    have h: "heap_ok st bs" using rep by (simp add: alloc_rep_def)
    have "0 < freelist st" using rep_sizes(3)[OF h rep_head(2)[OF rep f]] .
    then have "mcbAddr (freelist st) \<noteq> 0" by (simp add: mcbAddr_def)
    with a c show False
      by (auto simp: memAlloc_def Let_def split: if_splits option.splits)
  qed
next
  assume "freelist st = 0 \<or> m_size (mcbs st (freelist st)) < alloc_size n"
  from memAlloc_fail[OF this] show "\<exists>st'. memAlloc n st = Some (0, st')" by blast
qed

lemma head_too_small_iff:
  assumes rep: "alloc_rep st bs fl" and n: "- (2 ^ 31) \<le> n" "n \<le> 2 ^ 31 - 4"
  shows "(freelist st = 0 \<or> m_size (mcbs st (freelist st)) < alloc_size n) =
         (freelist st = 0 \<or> m_size (mcbs st (freelist st)) < adjusted_request n)"
proof (cases "0 \<le> n")
  case True
  with n have "alloc_size n = adjusted_request n" by (intro alloc_size_adjusted) auto
  then show ?thesis by simp
next
  case False
  then have neg: "n < 0" by simp
  have a: "alloc_size n \<le> 0" using alloc_size_negative[OF n(1) neg] .
  have b: "adjusted_request n = 16" using neg by (simp add: adjusted_request_def)
  show ?thesis
  proof (cases "freelist st = 0")
    case False
    have h: "heap_ok st bs" using rep by (simp add: alloc_rep_def)
    have "16 \<le> m_size (mcbs st (freelist st))"
      using rep_sizes(1)[OF h rep_head(2)[OF rep False]] .
    with a b show ?thesis by simp
  qed simp
qed

lemma free_block_fits:
  assumes rep: "alloc_rep st bs fl" and b: "b \<in> set bs" "m_magic (mcbs st b) = MAGIC_FREE"
  shows "freelist st \<noteq> 0" "m_size (mcbs st b) \<le> m_size (mcbs st (freelist st))"
proof -
  have f: "free_ok st bs fl" using rep by (simp add: alloc_rep_def)
  have bf: "b \<in> set fl" unfolding free_okD(3)[OF f] using b by simp
  then have "fl \<noteq> []" by auto
  moreover have "0 \<notin> set fl" using dlist_nonzero[OF free_okD(1)[OF f]] .
  ultimately have "hd0 fl \<noteq> 0" by (cases fl) auto
  then show 1: "freelist st \<noteq> 0" using dlist_hd0[OF free_okD(1)[OF f]] by simp
  show "m_size (mcbs st b) \<le> m_size (mcbs st (freelist st))" using rep_head(4)[OF rep 1 bf] .
qed

text \<open>
  For a request from \<open>INT_MIN\<close> to \<open>INT_MAX - 3\<close> and an allocator state that satisfies the
  invariants, \<open>memAlloc\<close> returns the null pointer exactly when the free list is empty or the
  payload of its head is smaller than the adjusted request of the specification; it then returns
  the state it was given; it does not return the null pointer while some free block can hold the
  adjusted request; and for a request that is not negative it returns.
\<close>

lemma memAlloc_fails_iff_head_too_small:
  assumes rep: "alloc_rep st bs fl" and n: "- (2 ^ 31) \<le> n" "n \<le> 2 ^ 31 - 4"
  shows "((\<exists>st'. memAlloc n st = Some (0, st')) =
            (freelist st = 0 \<or> m_size (mcbs st (freelist st)) < adjusted_request n)) \<and>
         (freelist st = 0 \<or> m_size (mcbs st (freelist st)) < adjusted_request n \<longrightarrow>
            memAlloc n st = Some (0, st)) \<and>
         ((\<exists>b\<in>set bs. m_magic (mcbs st b) = MAGIC_FREE \<and> adjusted_request n \<le> m_size (mcbs st b)) \<longrightarrow>
            (\<forall>st'. memAlloc n st \<noteq> Some (0, st'))) \<and>
         (0 \<le> n \<longrightarrow> (\<exists>p st'. memAlloc n st = Some (p, st')))"
proof (intro conjI impI)
  note e = head_too_small_iff[OF rep n]
  show i: "(\<exists>st'. memAlloc n st = Some (0, st')) =
      (freelist st = 0 \<or> m_size (mcbs st (freelist st)) < adjusted_request n)"
    unfolding memAlloc_null_iff[OF rep] e ..
  show "memAlloc n st = Some (0, st)"
    if "freelist st = 0 \<or> m_size (mcbs st (freelist st)) < adjusted_request n"
    using that e by (intro memAlloc_fail) simp
  show "\<forall>st'. memAlloc n st \<noteq> Some (0, st')"
    if "\<exists>b\<in>set bs. m_magic (mcbs st b) = MAGIC_FREE \<and> adjusted_request n \<le> m_size (mcbs st b)"
  proof -
    from that obtain b where b: "b \<in> set bs" "m_magic (mcbs st b) = MAGIC_FREE"
      "adjusted_request n \<le> m_size (mcbs st b)" by blast
    from free_block_fits[OF rep b(1,2)] b(3)
    have "\<not> (freelist st = 0 \<or> m_size (mcbs st (freelist st)) < adjusted_request n)" by simp
    with i show ?thesis by blast
  qed
  show "\<exists>p st'. memAlloc n st = Some (p, st')" if "0 \<le> n"
  proof -
    have "n \<le> 2147483644" using n(2) by simp
    from memAlloc_rep[OF rep that this] show ?thesis by blast
  qed
qed

lemma fresh_region:
  "\<exists>st0. memInit 4096 1024 zero_mem = Some st0 \<and> alloc_rep st0 [4096] [4096] \<and>
          freelist st0 = 4096 \<and> m_size (mcbs st0 4096) = 1008 \<and>
          m_magic (mcbs st0 4096) = MAGIC_FREE"
proof -
  have "\<forall>a. a \<noteq> 4096 \<longrightarrow> m_magic (mcbs zero_mem a) \<noteq> MAGIC_USED" by (simp add: zero_mem_def)
  from memInit_rep[of 4096 1024 zero_mem, OF _ _ _ this] show ?thesis by auto
qed

lemma memAlloc_fails_iff_head_too_small_instance:
  "\<exists>st0. memInit 4096 1024 zero_mem = Some st0 \<and> memAlloc 2000 st0 = Some (0, st0) \<and>
          (\<exists>p st'. memAlloc 100 st0 = Some (p, st') \<and> p \<noteq> 0)"
proof -
  from fresh_region obtain st0 where s: "memInit 4096 1024 zero_mem = Some st0"
    "alloc_rep st0 [4096] [4096]" "freelist st0 = 4096" "m_size (mcbs st0 4096) = 1008"
    "m_magic (mcbs st0 4096) = MAGIC_FREE"
    by blast
  have a: "adjusted_request 2000 = 2000" "adjusted_request 100 = 100"
    by (simp_all add: adjusted_request_def)
  have "memAlloc 2000 st0 = Some (0, st0)"
    using memAlloc_fails_iff_head_too_small[OF s(2), of 2000] s(3,4) a by simp
  moreover have "\<exists>p st'. memAlloc 100 st0 = Some (p, st') \<and> p \<noteq> 0"
    using memAlloc_fails_iff_head_too_small[OF s(2), of 100] s(3,4) a by (simp; metis)
  ultimately show ?thesis using s(1) by blast
qed

lemma memAlloc_INT_MAX_code:
  "(case memInit 4096 1024 zero_mem of None \<Rightarrow> False | Some st0 \<Rightarrow>
     freelist st0 = 4096 \<and> m_size (mcbs st0 4096) = 1008 \<and>
     (case memAlloc 2147483647 st0 of None \<Rightarrow> False | Some (p, st1) \<Rightarrow>
        p = 4112 \<and> m_size (mcbs st1 4096) = - 2147483648 \<and> freelist st1 = - 2147479536))"
  by code_simp

text \<open>
  C1 fails on the code for the three largest requests. For \<open>INT_MAX\<close> the rounding of line 466
  gives \<open>2^31\<close> in \<open>size_t\<close>, and the assignment to the \<open>int\<close> variable makes it \<open>-2^31\<close>. On a
  fresh region of 1024 bytes the only free block has a payload of 1008 bytes, less than the
  adjusted request \<open>2^31\<close>; the test \<open>m->size < size\<close> of line 469 compares with \<open>-2^31\<close>, so
  the early return is not taken: \<open>memAlloc\<close> splits the block with a negative size, records
  that size in the block it hands out, returns a pointer that is not null, and leaves the head of
  the free list two gigabytes below the region.
\<close>

theorem memAlloc_INT_MAX_not_refused:
  "adjusted_request 2147483647 = 2147483648 \<and> alloc_size 2147483647 = - 2147483648 \<and>
   (\<exists>st0 st1. memInit 4096 1024 zero_mem = Some st0 \<and> freelist st0 = 4096 \<and>
      m_size (mcbs st0 4096) = 1008 \<and> memAlloc 2147483647 st0 = Some (4112, st1) \<and>
      m_size (mcbs st1 4096) = - 2147483648 \<and> freelist st1 = - 2147479536)"
proof -
  have "adjusted_request 2147483647 = 2147483648" by (simp add: adjusted_request_def)
  moreover have "alloc_size 2147483647 = - 2147483648"
    by (simp add: alloc_size_def to_size_t_def to_int_def)
  moreover have "\<exists>st0 st1. memInit 4096 1024 zero_mem = Some st0 \<and> freelist st0 = 4096 \<and>
      m_size (mcbs st0 4096) = 1008 \<and> memAlloc 2147483647 st0 = Some (4112, st1) \<and>
      m_size (mcbs st1 4096) = - 2147483648 \<and> freelist st1 = - 2147479536"
    using memAlloc_INT_MAX_code by (auto elim!: Some_caseE Inr_caseE)
  ultimately show ?thesis by blast
qed

subsection \<open>The invariants after a request of negative size\<close>

lemma memAlloc_negative_code:
  "(case memInit 4096 1024 zero_mem of None \<Rightarrow> False | Some st0 \<Rightarrow>
     freelist st0 = 4096 \<and> m_size (mcbs st0 4096) = 1008 \<and>
     m_magic (mcbs st0 4096) = MAGIC_FREE \<and>
     (case memAlloc (- 16) st0 of None \<Rightarrow> False | Some (p, st1) \<Rightarrow>
        p = 4112 \<and> freelist st1 = 4096 \<and> m_magic (mcbs st1 4096) = MAGIC_USED \<and>
        m_size (mcbs st1 4096) = - 16 \<and> m_prev (mcbs st1 4096) = 4096 \<and>
        (case memFree p st1 of None \<Rightarrow> False | Some st2 \<Rightarrow>
           freelist st2 = 4096 \<and> m_magic (mcbs st2 4096) = 0 \<and> m_size (mcbs st2 4096) = - 16 \<and>
           (case memAlloc 100 st2 of None \<Rightarrow> False | Some (q, st3) \<Rightarrow> q = 0))))"
  by code_simp

text \<open>
  C2 fails on the code after a \<open>memAlloc\<close> of negative size (the defect of C8). On a fresh
  region of 1024 bytes \<open>memAlloc(-16)\<close> places the header of the remainder on the header of
  the block it splits; when it returns, the head of the free list is the block it has handed
  out, whose magic is \<open>USED\<close>, whose recorded payload size is \<open>-16\<close> and whose \<open>prev\<close> link
  points to the block itself. The free list does not hold exactly the \<open>FREE\<close> blocks.
\<close>

theorem memAlloc_negative_breaks_free_list:
  "\<exists>st0 st1. memInit 4096 1024 zero_mem = Some st0 \<and>
     memAlloc (- 16) st0 = Some (4112, st1) \<and>
     freelist st1 = 4096 \<and> m_magic (mcbs st1 4096) = MAGIC_USED \<and>
     m_size (mcbs st1 4096) = - 16 \<and> m_prev (mcbs st1 4096) = 4096"
  using memAlloc_negative_code by (auto elim!: Some_caseE Inr_caseE)


subsection \<open>The failure of the stack allocation in \<open>procCreate\<close>\<close>

lemma dlist_links_unique:
  "dlist L p a fl e \<Longrightarrow> dlist L' p a fl e \<Longrightarrow> c \<in> set fl \<Longrightarrow>
   larger (L' (mcbAddr c)) = larger (L (mcbAddr c)) \<and>
   smaller (L' (mcbAddr c)) = smaller (L (mcbAddr c))"
proof (induction fl arbitrary: p a)
  case Nil
  then show ?case by simp
next
  case (Cons b bs)
  show ?case
  proof (cases "c = b")
    case True
    have "smaller (L' (mcbAddr b)) = smaller (L (mcbAddr b))"
      using Cons.prems(1,2) by (cases bs) auto
    with Cons.prems True show ?thesis by simp
  next
    case False
    with Cons.prems have c: "c \<in> set bs" by simp
    have s: "smaller (L' (mcbAddr b)) = smaller (L (mcbAddr b))"
      using Cons.prems(1,2) by (cases bs) auto
    from Cons.prems(1,2) have "dlist L b (smaller (L (mcbAddr b))) bs e"
      "dlist L' b (smaller (L (mcbAddr b))) bs e"
      using s by simp_all
    from Cons.IH[OF this c] show ?thesis .
  qed
qed

text \<open>
  On an allocator state that satisfies the invariants, a \<open>procCreate\<close> whose PCB allocation
  succeeds and whose stack allocation fails frees the PCB and returns \<open>-1\<close>. The PID counter,
  the ready queue and the running process are what they were, and so is the allocator: the same
  block list and the same free list, with the header of every block and the links of every free
  block as before the call.
\<close>

lemma procCreate_stack_failure_restores:
  assumes rep: "alloc_rep (mem k) bs fl"
    and a1: "memAlloc sizeof_pcb_t (mem k) = Some (proc, st1)" and p0: "proc \<noteq> 0"
    and a2: "memAlloc STACKSZ st1 = Some (0, st2)"
  shows "\<exists>k'. procCreate start k = Some (Inr (- 1, k')) \<and>
           memFree proc st1 = Some (mem k') \<and>
           procId k' = procId k \<and> readyQ k' = readyQ k \<and> readyQEnd k' = readyQEnd k \<and>
           runningProc k' = runningProc k \<and> pcbs k' = pcbs k \<and>
           alloc_rep (mem k') bs fl \<and>
           mcb (mem k') = mcb (mem k) \<and> endMem (mem k') = endMem (mem k) \<and>
           freelist (mem k') = freelist (mem k) \<and>
           (\<forall>c\<in>set bs. m_size (mcbs (mem k') c) = m_size (mcbs (mem k) c) \<and>
                       m_prev (mcbs (mem k') c) = m_prev (mcbs (mem k) c) \<and>
                       m_magic (mcbs (mem k') c) = m_magic (mcbs (mem k) c)) \<and>
           (\<forall>c\<in>set fl. larger (links (mem k') (mcbAddr c)) = larger (links (mem k) (mcbAddr c)) \<and>
                       smaller (links (mem k') (mcbAddr c)) = smaller (links (mem k) (mcbAddr c)))"
proof -
  have n: "(0::int) \<le> 56" "(56::int) \<le> 2147483644" by simp_all
  from memAlloc_rep[OF rep n] a1 obtain bs1 fl1 where rep1: "alloc_rep st1 bs1 fl1" by auto
  have n2: "(0::int) \<le> STACKSZ" "STACKSZ \<le> 2147483644" by simp_all
  from memAlloc_rep[OF rep1 n2] a2 have s2: "st2 = st1" by auto
  from memAlloc_memFree_restores[OF rep n a1 p0]
  obtain st3 where r: "memFree proc st1 = Some st3" "alloc_rep st3 bs fl"
    "mcb st3 = mcb (mem k)" "endMem st3 = endMem (mem k)" "freelist st3 = freelist (mem k)"
    and F: "\<forall>c\<in>set bs. m_size (mcbs st3 c) = m_size (mcbs (mem k) c) \<and>
                       m_prev (mcbs st3 c) = m_prev (mcbs (mem k) c) \<and>
                       m_magic (mcbs st3 c) = m_magic (mcbs (mem k) c)"
    by blast
  have d: "dlist (links (mem k)) 0 (freelist (mem k)) fl 0"
    "dlist (links st3) 0 (freelist (mem k)) fl 0"
    using rep r(2,5) by (simp_all add: alloc_rep_def free_ok_def)
  have L: "\<forall>c\<in>set fl. larger (links st3 (mcbAddr c)) = larger (links (mem k) (mcbAddr c)) \<and>
                       smaller (links st3 (mcbAddr c)) = smaller (links (mem k) (mcbAddr c))"
    using dlist_links_unique[OF d] by blast
  have "procCreate start k = Some (Inr (- 1, k\<lparr>mem := st3\<rparr>))"
    using a1 p0 a2 s2 r(1) by (simp add: procCreate_def)
  with r F L show ?thesis by (intro exI[of _ "k\<lparr>mem := st3\<rparr>"]) simp
qed

lemma small_region_allocs_code:
  "(case memInit 4096 1024 zero_mem of None \<Rightarrow> False | Some st0 \<Rightarrow>
     (case memAlloc sizeof_pcb_t st0 of None \<Rightarrow> False | Some (p, st1) \<Rightarrow>
        p = 4112 \<and>
        (case memAlloc STACKSZ st1 of None \<Rightarrow> False | Some (q, st2) \<Rightarrow> q = 0)))"
  by code_simp

lemma procCreate_stack_failure_restores_instance:
  "\<exists>st0 k'. memInit 4096 1024 zero_mem = Some st0 \<and>
     procCreate 111 (zero_kern\<lparr>mem := st0\<rparr>) = Some (Inr (- 1, k')) \<and>
     procId k' = 0 \<and> readyQ k' = 0 \<and> runningProc k' = 0 \<and>
     freelist (mem k') = 4096 \<and> m_size (mcbs (mem k') 4096) = 1008 \<and>
     m_magic (mcbs (mem k') 4096) = MAGIC_FREE"
proof -
  have "\<exists>st0 st1 st2. memInit 4096 1024 zero_mem = Some st0 \<and>
     memAlloc sizeof_pcb_t st0 = Some (4112, st1) \<and> memAlloc STACKSZ st1 = Some (0, st2)"
    using small_region_allocs_code by (auto elim!: Some_caseE Inr_caseE)
  then obtain st0 st1 st2 where a: "memInit 4096 1024 zero_mem = Some st0"
    "memAlloc sizeof_pcb_t st0 = Some (4112, st1)" "memAlloc STACKSZ st1 = Some (0, st2)"
    by blast
  from fresh_region a(1) have s: "alloc_rep st0 [4096] [4096]" "freelist st0 = 4096"
    "m_size (mcbs st0 4096) = 1008" "m_magic (mcbs st0 4096) = MAGIC_FREE"
    by auto
  define k where "k = zero_kern\<lparr>mem := st0\<rparr>"
  have m: "mem k = st0" by (simp add: k_def)
  from procCreate_stack_failure_restores[of k "[4096]" "[4096]" 4112 st1 st2 111]
    s a(2,3) m
  obtain k' where r: "procCreate 111 k = Some (Inr (- 1, k'))" "procId k' = procId k"
    "readyQ k' = readyQ k" "runningProc k' = runningProc k"
    "freelist (mem k') = 4096" "m_size (mcbs (mem k') 4096) = 1008"
    "m_magic (mcbs (mem k') 4096) = MAGIC_FREE"
    by auto
  have z: "procId k = 0" "readyQ k = 0" "runningProc k = 0" by (simp_all add: k_def zero_kern_def)
  from a(1) r z show ?thesis unfolding k_def by auto
qed



end
